theory Spec2Isabelle
  imports Complex_Main "HOL-Library.Sublist"
begin

section \<open>Strings\<close>

text \<open>
  A JavaScript string is a sequence of UTF-16 code units. A code unit is modelled by its
  numeric value, so that the character classes of the regular expressions of
  \<^verbatim>\<open>i18n.js\<close> (line terminators, white space) are the ones of ECMAScript and not
  only their ASCII part. \<open>js ''abc''\<close> is the string of the code units of an ASCII literal.
\<close>

type_synonym jsstring = "nat list"

abbreviation js :: "string \<Rightarrow> jsstring" where
  "js s \<equiv> map of_char s"

text \<open>
  \<^verbatim>\<open>`${n}`\<close> for a non-negative integer \<open>n\<close> (an array index): its decimal digits,
  without leading zeros. \<^verbatim>\<open>Number(d)\<close> for a string of decimal digits: its value. Both
  are what JavaScript computes for integers below \<open>2^53\<close>, which a double holds exactly; an
  array index is below \<open>2^32\<close>.
\<close>

fun toString :: "nat \<Rightarrow> jsstring" where
  "toString n = (if n < 10 then [48 + n] else toString (n div 10) @ [48 + n mod 10])"

declare toString.simps [simp del]

definition Number :: "jsstring \<Rightarrow> nat" where
  "Number d = foldl (\<lambda>a c. 10 * a + (c - 48)) 0 d"

section \<open>Regular expressions\<close>

text \<open>
  The patterns of \<^verbatim>\<open>i18n.js\<close> use literal characters, the classes \<^verbatim>\<open>.\<close>,
  \<^verbatim>\<open>\d\<close>, \<^verbatim>\<open>\s\<close> and \<^verbatim>\<open>[a-z]\<close> (under the \<^verbatim>\<open>i\<close> flag), the greedy
  quantifiers \<^verbatim>\<open>*\<close> and \<^verbatim>\<open>+\<close> on a class, sequence, alternation, capture groups that
  are not nested, and the assertions \<^verbatim>\<open>^\<close> and \<^verbatim>\<open>$\<close> (without the \<^verbatim>\<open>m\<close> flag).
\<close>

datatype cclass =
    Dot       \<comment> \<open>\<^verbatim>\<open>.\<close>: any code unit but a line terminator\<close>
  | Digit     \<comment> \<open>\<^verbatim>\<open>\d\<close>\<close>
  | Space     \<comment> \<open>\<^verbatim>\<open>\s\<close>\<close>
  | AlphaCI   \<comment> \<open>\<^verbatim>\<open>[a-z]\<close> under the \<^verbatim>\<open>i\<close> flag\<close>

definition isLineTerminator :: "nat \<Rightarrow> bool" where
  "isLineTerminator c = (c = 10 \<or> c = 13 \<or> c = 8232 \<or> c = 8233)"

definition isDigit :: "nat \<Rightarrow> bool" where
  "isDigit c = (48 \<le> c \<and> c \<le> 57)"

definition isWhiteSpace :: "nat \<Rightarrow> bool" where
  "isWhiteSpace c =
     (c = 9 \<or> c = 11 \<or> c = 12 \<or> c = 32 \<or> c = 160 \<or> c = 5760 \<or> (8192 \<le> c \<and> c \<le> 8202)
      \<or> c = 8239 \<or> c = 8287 \<or> c = 12288 \<or> c = 65279 \<or> isLineTerminator c)"

definition isLetter :: "nat \<Rightarrow> bool" where
  "isLetter c = ((65 \<le> c \<and> c \<le> 90) \<or> (97 \<le> c \<and> c \<le> 122))"

fun cmem :: "cclass \<Rightarrow> nat \<Rightarrow> bool" where
  "cmem Dot c = (\<not> isLineTerminator c)"
| "cmem Digit c = isDigit c"
| "cmem Space c = isWhiteSpace c"
| "cmem AlphaCI c = isLetter c"

datatype regex =
    Atom cclass           \<comment> \<open>one code unit of the class\<close>
  | Str jsstring          \<comment> \<open>a sequence of literal pattern characters\<close>
  | Star cclass           \<comment> \<open>greedy \<^verbatim>\<open>*\<close>\<close>
  | Plus cclass           \<comment> \<open>greedy \<^verbatim>\<open>+\<close>\<close>
  | Seq regex regex
  | Alt regex regex
  | Group regex           \<comment> \<open>capturing parentheses\<close>
  | Bol                   \<comment> \<open>\<^verbatim>\<open>^\<close>\<close>
  | Eol                   \<comment> \<open>\<^verbatim>\<open>$\<close>\<close>

text \<open>
  The backtracking matcher. A state is the input that is left and the captures closed so
  far; \<open>bt n r st\<close> lists the states in which \<open>r\<close> can end when started in \<open>st\<close>, in the
  order in which backtracking tries them (a greedy quantifier tries the longest repetition
  first, an alternation its left branch first). \<open>n\<close> is the length of the whole input.
\<close>

type_synonym mstate = "jsstring \<times> jsstring list"

fun bt :: "nat \<Rightarrow> regex \<Rightarrow> mstate \<Rightarrow> mstate list" where
  "bt n (Atom c) (s, cs) =
     (case s of [] \<Rightarrow> [] | x # xs \<Rightarrow> if cmem c x then [(xs, cs)] else [])"
| "bt n (Str l) (s, cs) =
     (if take (length l) s = l then [(drop (length l) s, cs)] else [])"
| "bt n (Star c) (s, cs) =
     map (\<lambda>k. (drop k s, cs)) (rev [0 ..< Suc (length (takeWhile (cmem c) s))])"
| "bt n (Plus c) (s, cs) =
     map (\<lambda>k. (drop k s, cs)) (rev [1 ..< Suc (length (takeWhile (cmem c) s))])"
| "bt n (Seq r1 r2) st = concat (map (bt n r2) (bt n r1 st))"
| "bt n (Alt r1 r2) st = bt n r1 st @ bt n r2 st"
| "bt n (Group r) (s, cs) =
     map (\<lambda>(s', cs'). (s', cs' @ [take (length s - length s') s])) (bt n r (s, cs))"
| "bt n Bol (s, cs) = (if length s = n then [(s, cs)] else [])"
| "bt n Eol (s, cs) = (if s = [] then [(s, cs)] else [])"

text \<open>
  \<^verbatim>\<open>RegExp.prototype.exec\<close> from index 0 without the \<^verbatim>\<open>g\<close> and \<^verbatim>\<open>y\<close> flags: the
  first start position at which the pattern matches, and there the first way backtracking
  finds. The result is the matched text followed by the captures.
\<close>

fun search :: "nat \<Rightarrow> regex \<Rightarrow> jsstring \<Rightarrow> jsstring list option" where
  "search n r [] =
     (case bt n r ([], []) of
        [] \<Rightarrow> None
      | (s', cs) # _ \<Rightarrow> Some ([] # cs))"
| "search n r (x # xs) =
     (case bt n r (x # xs, []) of
        [] \<Rightarrow> search n r xs
      | (s', cs) # _ \<Rightarrow> Some (take (length (x # xs) - length s') (x # xs) # cs))"

definition regex_match :: "regex \<Rightarrow> jsstring \<Rightarrow> jsstring list option" where
  "regex_match r s = search (length s) r s"

definition regex_test :: "regex \<Rightarrow> jsstring \<Rightarrow> bool" where
  "regex_test r s = (regex_match r s \<noteq> None)"

section \<open>Reference tokens\<close>

definition MESSAGE_INSTANCE_ID_REGEX :: regex where
  "MESSAGE_INSTANCE_ID_REGEX =
     Seq (Group (Seq (Star Dot) (Seq (Str (js '' | '')) (Star Dot))))
         (Seq (Str (js '' # '')) (Seq (Group (Plus Digit)) Eol))"

definition MESSAGE_INSTANCE_ID_QUICK_REGEX :: regex where
  "MESSAGE_INSTANCE_ID_QUICK_REGEX = Seq (Str (js '' # '')) (Seq (Plus Digit) Eol)"

definition isIcuMessage :: "jsstring \<Rightarrow> bool" where
  "isIcuMessage icuMessageIdOrRawString =
     (regex_test MESSAGE_INSTANCE_ID_QUICK_REGEX icuMessageIdOrRawString \<and>
      regex_test MESSAGE_INSTANCE_ID_REGEX icuMessageIdOrRawString)"

section \<open>Errors\<close>

text \<open>Every \<^verbatim>\<open>throw\<close> of \<^verbatim>\<open>i18n.js\<close>, and the exceptions of the runtime it can meet.\<close>

datatype error =
    CouldNotLocate jsstring       \<comment> \<open>\<^verbatim>\<open>Could not locate: ${icuMessage}\<close>\<close>
  | NotValidInstanceId jsstring   \<comment> \<open>\<^verbatim>\<open>${icuMessageInstanceId} is not a valid message instance ID\<close>\<close>
  | UnsupportedLocale jsstring    \<comment> \<open>\<^verbatim>\<open>Unsupported locale '${locale}'\<close>\<close>
  | ICUMsgNotFound                \<comment> \<open>\<^verbatim>\<open>_ICUMsgNotFoundMsg\<close>\<close>
  | ValueNotProvided jsstring     \<comment> \<open>\<^verbatim>\<open>ICU Message contains a value reference ("${el.id}") that wasn't provided\<close>\<close>
  | CannotHandle jsstring         \<comment> \<open>\<^verbatim>\<open>Cannot handle "${property}" in i18n\<close>\<close>
  | TypeError jsstring            \<comment> \<open>reading the named property of \<^verbatim>\<open>undefined\<close>\<close>
  | RangeError                    \<comment> \<open>\<^verbatim>\<open>Intl\<close>: the language tag is not structurally valid\<close>
  | LibraryError jsstring         \<comment> \<open>raised inside the message parser or the message formatter\<close>

section \<open>Objects\<close>

text \<open>
  A plain object is the list of its own enumerable properties, in enumeration order, with
  distinct keys. The \<^verbatim>\<open>in\<close> operator also finds what a plain object inherits from
  \<^verbatim>\<open>Object.prototype\<close>.
\<close>

type_synonym 'a jsobject = "(jsstring \<times> 'a) list"

definition Object_prototype_keys :: "jsstring list" where
  "Object_prototype_keys =
     [js ''constructor'', js ''__defineGetter__'', js ''__defineSetter__'',
      js ''hasOwnProperty'', js ''__lookupGetter__'', js ''__lookupSetter__'',
      js ''isPrototypeOf'', js ''propertyIsEnumerable'', js ''toString'', js ''valueOf'',
      js ''__proto__'', js ''toLocaleString'']"

definition js_in :: "jsstring \<Rightarrow> 'a jsobject \<Rightarrow> bool" where
  "js_in k obj = (k \<in> set (map fst obj) \<or> k \<in> set Object_prototype_keys)"

text \<open>\<^verbatim>\<open>CreateDataProperty\<close>, as object spread does for each copied property.\<close>

fun defineProperty :: "'a jsobject \<Rightarrow> jsstring \<Rightarrow> 'a \<Rightarrow> 'a jsobject" where
  "defineProperty [] k v = [(k, v)]"
| "defineProperty ((k', v') # obj) k v =
     (if k' = k then (k, v) # obj else (k', v') # defineProperty obj k v)"

definition spread :: "'a jsobject \<Rightarrow> 'a jsobject \<Rightarrow> 'a jsobject" where
  "spread a b = foldl (\<lambda>obj (k, v). defineProperty obj k v) a b"

text \<open>
  The assignment \<^verbatim>\<open>obj[k] = v\<close> of a number to a plain object: an own property is
  overwritten; otherwise a new one is appended, except that the inherited setter of
  \<^verbatim>\<open>__proto__\<close> ignores a value that is not an object.
\<close>

definition assignProperty :: "'a jsobject \<Rightarrow> jsstring \<Rightarrow> 'a \<Rightarrow> 'a jsobject" where
  "assignProperty obj k v =
     (if k \<in> set (map fst obj) then defineProperty obj k v
      else if k = js ''__proto__'' then obj
      else obj @ [(k, v)])"

section \<open>The shared strings\<close>

definition UIStrings :: "jsstring jsobject" where
  "UIStrings =
    [(js ''ms'', js ''{timeInMs, number, milliseconds}'' @ [160] @ js ''ms''),
     (js ''seconds'', js ''{timeInMs, number, seconds}'' @ [160] @ js ''s''),
     (js ''displayValueByteSavings'',
        js ''Potential savings of {wastedBytes, number, bytes}'' @ [160] @ js ''KB''),
     (js ''displayValueMsSavings'',
        js ''Potential savings of {wastedMs, number, milliseconds}'' @ [160] @ js ''ms''),
     (js ''columnURL'', js ''URL''),
     (js ''columnSize'', js ''Size''),
     (js ''columnCacheTTL'', js ''Cache TTL''),
     (js ''columnWastedBytes'', js ''Potential Savings''),
     (js ''columnWastedMs'', js ''Potential Savings''),
     (js ''columnTimeSpent'', js ''Time Spent''),
     (js ''columnLocation'', js ''Location''),
     (js ''columnResourceType'', js ''Resource Type''),
     (js ''columnRequests'', js ''Requests''),
     (js ''columnTransferSize'', js ''Transfer Size''),
     (js ''columnName'', js ''Name''),
     (js ''totalResourceType'', js ''Total''),
     (js ''documentResourceType'', js ''Document''),
     (js ''scriptResourceType'', js ''Script''),
     (js ''stylesheetResourceType'', js ''Stylesheet''),
     (js ''imageResourceType'', js ''Image''),
     (js ''mediaResourceType'', js ''Media''),
     (js ''fontResourceType'', js ''Font''),
     (js ''otherResourceType'', js ''Other''),
     (js ''thirdPartyResourceType'', js ''Third-party'')]"

section \<open>What the module takes from outside\<close>

text \<open>
  The parsed form of an ICU message, as \<^verbatim>\<open>intl-messageformat-parser\<close> returns it. The
  module reads the \<^verbatim>\<open>type\<close> and the \<^verbatim>\<open>id\<close> of an element, its \<^verbatim>\<open>format\<close>
  and the \<^verbatim>\<open>style\<close> of the format; the options of a plural or select format are never
  read and are left out.
\<close>

datatype format =
    NumberFormat "jsstring option"
  | DateFormat "jsstring option"
  | TimeFormat "jsstring option"
  | PluralFormat
  | SelectOrdinalFormat
  | SelectFormat

datatype element =
    MessageTextElement jsstring
  | ArgumentElement jsstring "format option"

text \<open>
  A number is a finite double, modelled by the rational it denotes, or \<^verbatim>\<open>NaN\<close>
  (infinities and rounding of the arithmetic to 53 bits are not modelled).
\<close>

datatype jsnum = Fin rat | NaN

text \<open>
  The locale data (\<^verbatim>\<open>locales.js\<close>), the libraries and the platform:
  \<^item> \<open>LOCALES l\<close> is the catalog of the locale \<open>l\<close>: for a message id, the \<^verbatim>\<open>message\<close>
    of its entry;
  \<^item> \<open>parse\<close> is \<^verbatim>\<open>MessageParser.parse(m).elements\<close>;
  \<^item> \<open>messageFormat m l vs\<close> is \<^verbatim>\<open>new MessageFormat(m, l, formats).format(vs)\<close>;
  \<^item> \<open>relative f\<close> is \<^verbatim>\<open>path.relative(LH_ROOT, f)\<close> and \<open>thisFilename\<close> is
    \<^verbatim>\<open>__filename\<close>;
  \<^item> \<open>langtagGrammar\<close> and \<open>canonicalizeLanguageTag\<close> are the grammar of language tags
    and their canonical form, of \<^verbatim>\<open>Intl.getCanonicalLocales\<close>.
\<close>

record env =
  LOCALES :: "jsstring \<Rightarrow> (jsstring \<Rightarrow> jsstring option) option"
  parse :: "jsstring \<Rightarrow> error + element list"
  messageFormat :: "jsstring \<Rightarrow> jsstring \<Rightarrow> jsnum jsobject \<Rightarrow> error + jsstring"
  relative :: "jsstring \<Rightarrow> jsstring"
  thisFilename :: jsstring
  langtagGrammar :: "jsstring \<Rightarrow> bool"
  canonicalizeLanguageTag :: "jsstring \<Rightarrow> jsstring"

section \<open>Locale lookup\<close>

text \<open>
  \<^verbatim>\<open>Intl.getCanonicalLocales\<close> on \<^verbatim>\<open>undefined\<close> or one string (ECMA-402,
  CanonicalizeLocaleList): a tag that is not structurally valid raises a
  \<^verbatim>\<open>RangeError\<close>. A structurally valid tag is not empty and is made of ASCII letters,
  digits and \<^verbatim>\<open>-\<close>; the rest of its grammar is the parameter.
\<close>

definition isTagChar :: "nat \<Rightarrow> bool" where
  "isTagChar c = (isLetter c \<or> isDigit c \<or> c = 45)"

definition IsStructurallyValidLanguageTag :: "env \<Rightarrow> jsstring \<Rightarrow> bool" where
  "IsStructurallyValidLanguageTag E tag =
     (tag \<noteq> [] \<and> list_all isTagChar tag \<and> langtagGrammar E tag)"

definition Intl_getCanonicalLocales :: "env \<Rightarrow> jsstring option \<Rightarrow> error + jsstring list" where
  "Intl_getCanonicalLocales E locale =
     (case locale of
        None \<Rightarrow> Inr []
      | Some tag \<Rightarrow>
          if IsStructurallyValidLanguageTag E tag then Inr [canonicalizeLanguageTag E tag]
          else Inl RangeError)"

text \<open>\<^verbatim>\<open>s.split('-')\<close> and \<^verbatim>\<open>a.join('-')\<close>.\<close>

fun split :: "nat \<Rightarrow> jsstring \<Rightarrow> jsstring list" where
  "split sep [] = [[]]"
| "split sep (c # s) =
     (if c = sep then [] # split sep s
      else (case split sep s of [] \<Rightarrow> [[c]] | w # ws \<Rightarrow> (c # w) # ws))"

fun join :: "nat \<Rightarrow> jsstring list \<Rightarrow> jsstring" where
  "join sep [] = []"
| "join sep [w] = w"
| "join sep (w # ws) = w @ sep # join sep ws"

text \<open>
  The package \<^verbatim>\<open>lookup-closest-locale\<close>: the tag itself when it is available, then the
  tag without its last subtag, and so on; \<^verbatim>\<open>undefined\<close> when nothing is available.
  \<open>available c\<close> stands for \<^verbatim>\<open>available[c]\<close> being truthy.
\<close>

function closestCandidate :: "(jsstring \<Rightarrow> bool) \<Rightarrow> jsstring list \<Rightarrow> jsstring option" where
  "closestCandidate available current =
     (if current = [] then None
      else if available (join 45 current) then Some (join 45 current)
      else closestCandidate available (butlast current))"
  by pat_completeness auto
termination
  by (relation "measure (\<lambda>(available, current). length current)") auto

declare closestCandidate.simps [simp del]

definition lookupClosestLocale :: "jsstring option \<Rightarrow> (jsstring \<Rightarrow> bool) \<Rightarrow> jsstring option" where
  "lookupClosestLocale locale available =
     (case locale of
        None \<Rightarrow> None
      | Some l \<Rightarrow>
          if available l then Some l
          else if l = [] then None
          else closestCandidate available (split 45 l))"

definition lookupLocale :: "env \<Rightarrow> jsstring option \<Rightarrow> error + jsstring" where
  "lookupLocale E locale =
     (case Intl_getCanonicalLocales E locale of
        Inl e \<Rightarrow> Inl e
      | Inr canonicalLocales \<Rightarrow>
          let canonicalLocale = (case canonicalLocales of [] \<Rightarrow> None | c # _ \<Rightarrow> Some c);
              closestLocale = lookupClosestLocale canonicalLocale (\<lambda>c. LOCALES E c \<noteq> None)
          in Inr (case closestLocale of
                    None \<Rightarrow> js ''en''
                  | Some l \<Rightarrow> if l = [] then js ''en'' else l))"

section \<open>Preprocessing the values of a message\<close>

text \<open>\<^verbatim>\<open>Math.round\<close>: the nearest integer, a tie going up.\<close>

definition Math_round :: "rat \<Rightarrow> rat" where
  "Math_round x = of_int \<lfloor>x + 1 / 2\<rfloor>"

fun liftNum :: "(rat \<Rightarrow> rat) \<Rightarrow> jsnum \<Rightarrow> jsnum" where
  "liftNum f (Fin x) = Fin (f x)"
| "liftNum f NaN = NaN"

text \<open>
  \<^verbatim>\<open>obj[k]\<close> as an operand of arithmetic: an own number; a missing property
  (\<^verbatim>\<open>undefined\<close>) and an inherited one (a function or an object) convert to
  \<^verbatim>\<open>NaN\<close>.
\<close>

definition numberAt :: "jsnum jsobject \<Rightarrow> jsstring \<Rightarrow> jsnum" where
  "numberAt obj k = (case map_of obj k of Some v \<Rightarrow> v | None \<Rightarrow> NaN)"

text \<open>
  The values of a message are an object of finite numbers, which
  \<^verbatim>\<open>JSON.parse(JSON.stringify(values))\<close> copies property by property.
\<close>

definition JSON_clone :: "rat jsobject \<Rightarrow> jsnum jsobject" where
  "JSON_clone vals = map (\<lambda>(k, v). (k, Fin v)) vals"

fun isArgumentElement :: "element \<Rightarrow> bool" where
  "isArgumentElement (ArgumentElement i f) = True"
| "isArgumentElement (MessageTextElement t) = False"

text \<open>\<^verbatim>\<open>el.format && el.format.style\<close>.\<close>

fun styleOf :: "element \<Rightarrow> jsstring option" where
  "styleOf (ArgumentElement i (Some (NumberFormat st))) = st"
| "styleOf (ArgumentElement i (Some (DateFormat st))) = st"
| "styleOf (ArgumentElement i (Some (TimeFormat st))) = st"
| "styleOf (ArgumentElement i _) = None"
| "styleOf (MessageTextElement t) = None"

text \<open>\<^verbatim>\<open>el.id && (el.id in values) === false\<close>.\<close>

fun valueMissing :: "rat jsobject \<Rightarrow> element \<Rightarrow> bool" where
  "valueMissing vals (ArgumentElement i f) = (i \<noteq> [] \<and> \<not> js_in i vals)"
| "valueMissing vals (MessageTextElement t) = False"

text \<open>The bodies of the three \<^verbatim>\<open>forEach\<close> loops.\<close>

fun roundMilliseconds :: "jsnum jsobject \<Rightarrow> element \<Rightarrow> jsnum jsobject" where
  "roundMilliseconds clonedValues (ArgumentElement i f) =
     assignProperty clonedValues i
       (liftNum (\<lambda>x. Math_round (x / 10) * 10) (numberAt clonedValues i))"
| "roundMilliseconds clonedValues (MessageTextElement t) = clonedValues"

fun toSeconds :: "jsnum jsobject \<Rightarrow> element \<Rightarrow> jsnum jsobject" where
  "toSeconds clonedValues (ArgumentElement i f) =
     assignProperty clonedValues i
       (liftNum (\<lambda>x. Math_round (x / 100) / 10) (numberAt clonedValues i))"
| "toSeconds clonedValues (MessageTextElement t) = clonedValues"

fun toKilobytes :: "jsnum jsobject \<Rightarrow> element \<Rightarrow> jsnum jsobject" where
  "toKilobytes clonedValues (ArgumentElement i f) =
     assignProperty clonedValues i (liftNum (\<lambda>x. x / 1024) (numberAt clonedValues i))"
| "toKilobytes clonedValues (MessageTextElement t) = clonedValues"

fun isTimeInMs :: "element \<Rightarrow> bool" where
  "isTimeInMs (ArgumentElement i f) = (i = js ''timeInMs'')"
| "isTimeInMs (MessageTextElement t) = False"

fun elementId :: "element \<Rightarrow> jsstring" where
  "elementId (ArgumentElement i f) = i"
| "elementId (MessageTextElement t) = []"

definition preprocessMessageValues ::
  "env \<Rightarrow> jsstring \<Rightarrow> rat jsobject option \<Rightarrow> error + jsnum jsobject" where
  "preprocessMessageValues E icuMessage values =
     (let vals = (case values of None \<Rightarrow> [] | Some v \<Rightarrow> v);
          clonedValues = JSON_clone vals
      in case parse E icuMessage of
           Inl e \<Rightarrow> Inl e
         | Inr elements \<Rightarrow>
             (case find (valueMissing vals) (filter isArgumentElement elements) of
                Some el \<Rightarrow> Inl (ValueNotProvided (elementId el))
              | None \<Rightarrow>
                  let clonedValues = foldl roundMilliseconds clonedValues
                        (filter (\<lambda>el. styleOf el = Some (js ''milliseconds'')) elements);
                      clonedValues = foldl toSeconds clonedValues
                        (filter (\<lambda>el. styleOf el = Some (js ''seconds'') \<and> isTimeInMs el) elements);
                      clonedValues = foldl toKilobytes clonedValues
                        (filter (\<lambda>el. styleOf el = Some (js ''bytes'')) elements)
                  in Inr clonedValues))"

section \<open>Formatting a message\<close>

text \<open>A string that is defined and not empty.\<close>

fun truthy :: "jsstring option \<Rightarrow> bool" where
  "truthy None = False"
| "truthy (Some s) = (s \<noteq> [])"

text \<open>
  \<^verbatim>\<open>_formatIcuMessage\<close>. The warning it logs when the fallback differs from the
  \<^verbatim>\<open>en\<close> catalog has no effect on the result and is left out.
\<close>

definition formatIcuMessage ::
  "env \<Rightarrow> jsstring \<Rightarrow> jsstring \<Rightarrow> jsstring option \<Rightarrow> rat jsobject option
     \<Rightarrow> error + jsstring \<times> jsstring" where
  "formatIcuMessage E locale icuMessageId uiStringMessage values =
     (case LOCALES E locale of
        None \<Rightarrow> Inl (UnsupportedLocale locale)
      | Some localeMessages \<Rightarrow>
          let localeMessage = localeMessages icuMessageId;
              localeMessage =
                (if \<not> truthy localeMessage \<and> truthy uiStringMessage then uiStringMessage
                 else localeMessage)
          in case localeMessage of
               None \<Rightarrow> Inl ICUMsgNotFound
             | Some m \<Rightarrow>
                 if m = [] then Inl ICUMsgNotFound
                 else
                   let localeForMessageFormat =
                         (if locale = js ''en-XA'' \<or> locale = js ''en-XL'' then js ''de-DE''
                          else locale)
                   in case preprocessMessageValues E m values of
                        Inl e \<Rightarrow> Inl e
                      | Inr valuesForMessageFormat \<Rightarrow>
                          (case messageFormat E m localeForMessageFormat valuesForMessageFormat of
                             Inl e \<Rightarrow> Inl e
                           | Inr formattedString \<Rightarrow> Inr (formattedString, m)))"

section \<open>Path of a property in the report\<close>

definition IDENTIFIER_REGEX :: regex where
  \<comment> \<open>\<^verbatim>\<open>/^[a-z]+$/i\<close>\<close>
  "IDENTIFIER_REGEX = Seq Bol (Seq (Plus AlphaCI) Eol)"

definition UNSAFE_REGEX :: regex where
  \<comment> \<open>\<^verbatim>\<open>/]|"|'|\s/\<close>\<close>
  "UNSAFE_REGEX = Alt (Str [93]) (Alt (Str [34]) (Alt (Str [39]) (Atom Space)))"

fun formatPathLoop :: "jsstring \<Rightarrow> jsstring list \<Rightarrow> error + jsstring" where
  "formatPathLoop pathAsString [] = Inr pathAsString"
| "formatPathLoop pathAsString (property # rest) =
     (if regex_test IDENTIFIER_REGEX property then
        formatPathLoop
          ((if pathAsString \<noteq> [] then pathAsString @ js ''.'' else pathAsString) @ property) rest
      else if regex_test UNSAFE_REGEX property then Inl (CannotHandle property)
      else formatPathLoop (pathAsString @ js ''['' @ property @ js '']'') rest)"

definition formatPathAsString :: "jsstring list \<Rightarrow> error + jsstring" where
  "formatPathAsString pathInLHR = formatPathLoop [] pathInLHR"

section \<open>The instance registry\<close>

record 'v IcuMessageInstance =
  inst_icuMessageId :: jsstring
  inst_icuMessage :: jsstring
  inst_values :: 'v

text \<open>\<^verbatim>\<open>_icuMessageInstanceMap\<close>, and \<^verbatim>\<open>map.get(id) || []\<close>.\<close>

type_synonym 'v instanceMap = "jsstring \<Rightarrow> 'v IcuMessageInstance list option"

definition instancesOf :: "'v instanceMap \<Rightarrow> jsstring \<Rightarrow> 'v IcuMessageInstance list" where
  "instancesOf m icuMessageId = (case m icuMessageId of None \<Rightarrow> [] | Some l \<Rightarrow> l)"

text \<open>\<^verbatim>\<open>Array.prototype.findIndex\<close>; \<open>None\<close> is its \<^verbatim>\<open>-1\<close>.\<close>

fun findIndex :: "('a \<Rightarrow> bool) \<Rightarrow> 'a list \<Rightarrow> nat option" where
  "findIndex P [] = None"
| "findIndex P (x # xs) = (if P x then Some 0 else map_option Suc (findIndex P xs))"

text \<open>\<^verbatim>\<open>s.replace(/\\/g, '/')\<close>.\<close>

definition unixStyle :: "jsstring \<Rightarrow> jsstring" where
  "unixStyle s = map (\<lambda>c. if c = 92 then 47 else c) s"

text \<open>
  The function that \<^verbatim>\<open>createMessageInstanceIdFn(filename, fileStrings)\<close> returns, on
  the state of the map, in three steps: \<open>icuMessageIdFor\<close> finds the message id of the
  message (up to the line that builds \<^verbatim>\<open>icuMessageId\<close>), \<open>placeInstance\<close> finds or
  appends the instance and stores the sequence (up to \<^verbatim>\<open>_icuMessageInstanceMap.set\<close>),
  and the result is the token. \<open>isDeepEqual\<close> is \<^verbatim>\<open>lodash.isequal\<close>. (Property names that
  are array indices, which an object enumerates first, are not modelled.)
\<close>

definition icuMessageIdFor ::
  "env \<Rightarrow> jsstring \<Rightarrow> jsstring jsobject \<Rightarrow> jsstring \<Rightarrow> error + jsstring" where
  "icuMessageIdFor E filename fileStrings icuMessage =
     (let mergedStrings = spread UIStrings fileStrings
      in case find (\<lambda>key. map_of mergedStrings key = Some icuMessage) (map fst mergedStrings) of
           None \<Rightarrow> Inl (CouldNotLocate icuMessage)
         | Some keyname \<Rightarrow>
             if keyname = [] then Inl (CouldNotLocate icuMessage)
             else
               let filenameToLookup =
                     (if js_in keyname fileStrings then filename else thisFilename E);
                   unixStyleFilename = unixStyle (relative E filenameToLookup)
               in Inr (unixStyleFilename @ js '' | '' @ keyname))"

definition placeInstance ::
  "('v \<Rightarrow> 'v \<Rightarrow> bool) \<Rightarrow> jsstring \<Rightarrow> jsstring \<Rightarrow> 'v \<Rightarrow> 'v instanceMap
     \<Rightarrow> nat \<times> 'v instanceMap" where
  "placeInstance isDeepEqual icuMessageId icuMessage values m =
     (let icuMessageInstances = instancesOf m icuMessageId
      in case findIndex (\<lambda>inst. isDeepEqual (inst_values inst) values) icuMessageInstances of
           Some indexOfInstance \<Rightarrow>
             (indexOfInstance, m(icuMessageId \<mapsto> icuMessageInstances))
         | None \<Rightarrow>
             let icuMessageInstances = icuMessageInstances @
                   [\<lparr>inst_icuMessageId = icuMessageId, inst_icuMessage = icuMessage,
                     inst_values = values\<rparr>]
             in (length icuMessageInstances - 1, m(icuMessageId \<mapsto> icuMessageInstances)))"

definition locateMessageInstance ::
  "env \<Rightarrow> ('v \<Rightarrow> 'v \<Rightarrow> bool) \<Rightarrow> jsstring \<Rightarrow> jsstring jsobject \<Rightarrow> jsstring \<Rightarrow> 'v
     \<Rightarrow> 'v instanceMap \<Rightarrow> error + jsstring \<times> nat \<times> 'v instanceMap" where
  "locateMessageInstance E isDeepEqual filename fileStrings icuMessage values m =
     (case icuMessageIdFor E filename fileStrings icuMessage of
        Inl e \<Rightarrow> Inl e
      | Inr icuMessageId \<Rightarrow>
          Inr (icuMessageId, placeInstance isDeepEqual icuMessageId icuMessage values m))"

definition getMessageInstanceIdFn ::
  "env \<Rightarrow> ('v \<Rightarrow> 'v \<Rightarrow> bool) \<Rightarrow> jsstring \<Rightarrow> jsstring jsobject \<Rightarrow> jsstring \<Rightarrow> 'v
     \<Rightarrow> 'v instanceMap \<Rightarrow> error + jsstring \<times> 'v instanceMap" where
  "getMessageInstanceIdFn E isDeepEqual filename fileStrings icuMessage values m =
     (case locateMessageInstance E isDeepEqual filename fileStrings icuMessage values m of
        Inl e \<Rightarrow> Inl e
      | Inr (icuMessageId, indexOfInstance, m') \<Rightarrow>
          Inr (icuMessageId @ js '' # '' @ toString indexOfInstance, m'))"

text \<open>
  The maps that calls of such functions build from the empty map, each with the message ids
  and indices issued on the way (the latest first).
\<close>

inductive issued ::
  "env \<Rightarrow> ('v \<Rightarrow> 'v \<Rightarrow> bool) \<Rightarrow> 'v instanceMap \<Rightarrow> (jsstring \<times> nat) list \<Rightarrow> bool"
  for E :: env and isDeepEqual :: "'v \<Rightarrow> 'v \<Rightarrow> bool" where
  issued_empty: "issued E isDeepEqual Map.empty []"
| issued_call:
    "issued E isDeepEqual m hist \<Longrightarrow>
     locateMessageInstance E isDeepEqual filename fileStrings icuMessage values m
       = Inr (icuMessageId, indexOfInstance, m') \<Longrightarrow>
     issued E isDeepEqual m' ((icuMessageId, indexOfInstance) # hist)"

text \<open>The maps that further calls build from a given map.\<close>

inductive later ::
  "env \<Rightarrow> ('v \<Rightarrow> 'v \<Rightarrow> bool) \<Rightarrow> 'v instanceMap \<Rightarrow> 'v instanceMap \<Rightarrow> bool"
  for E :: env and isDeepEqual :: "'v \<Rightarrow> 'v \<Rightarrow> bool" where
  later_same: "later E isDeepEqual m m"
| later_call:
    "later E isDeepEqual m m1 \<Longrightarrow>
     locateMessageInstance E isDeepEqual filename fileStrings icuMessage values m1
       = Inr (icuMessageId, indexOfInstance, m2) \<Longrightarrow>
     later E isDeepEqual m m2"

section \<open>Resolving a reference token\<close>

definition resolveIcuMessageInstanceId ::
  "env \<Rightarrow> rat jsobject option instanceMap \<Rightarrow> jsstring \<Rightarrow> jsstring
     \<Rightarrow> error + rat jsobject option IcuMessageInstance \<times> jsstring" where
  "resolveIcuMessageInstanceId E m icuMessageInstanceId locale =
     (case regex_match MESSAGE_INSTANCE_ID_REGEX icuMessageInstanceId of
        None \<Rightarrow> Inl (NotValidInstanceId icuMessageInstanceId)
      | Some matches \<Rightarrow>
          let icuMessageId = matches ! 1;
              icuMessageInstanceIndex = matches ! 2;
              icuMessageInstances = instancesOf m icuMessageId
          in if Number icuMessageInstanceIndex < length icuMessageInstances then
               let icuMessageInstance = icuMessageInstances ! Number icuMessageInstanceIndex
               in case formatIcuMessage E locale icuMessageId
                         (Some (inst_icuMessage icuMessageInstance))
                         (inst_values icuMessageInstance) of
                    Inl e \<Rightarrow> Inl e
                  | Inr (formattedString, icuMessage) \<Rightarrow>
                      Inr (icuMessageInstance, formattedString)
             else Inl (TypeError (js ''icuMessage'')))"

definition getFormatted ::
  "env \<Rightarrow> rat jsobject option instanceMap \<Rightarrow> jsstring \<Rightarrow> jsstring \<Rightarrow> error + jsstring" where
  "getFormatted E m icuMessageIdOrRawString locale =
     (if isIcuMessage icuMessageIdOrRawString then
        (case resolveIcuMessageInstanceId E m icuMessageIdOrRawString locale of
           Inl e \<Rightarrow> Inl e
         | Inr (icuMessageInstance, formattedString) \<Rightarrow> Inr formattedString)
      else Inr icuMessageIdOrRawString)"

section \<open>Notions of the specification\<close>

text \<open>The two separators of a reference token.\<close>

definition keySeparator :: jsstring where
  "keySeparator = js '' | ''"

definition indexSeparator :: jsstring where
  "indexSeparator = js '' # ''"

text \<open>
  The shape of a token in the words of the specification: anything containing
  \<^verbatim>\<open>" | "\<close>, then \<^verbatim>\<open>" # "\<close> and a run of digits at the end of the string.
\<close>

definition tokenShape :: "jsstring \<Rightarrow> bool" where
  "tokenShape s =
     (\<exists>p q d. s = (p @ keySeparator @ q) @ indexSeparator @ d \<and> d \<noteq> [] \<and> list_all isDigit d)"

text \<open>
  The path of the specification: segments made of letters are joined by \<^verbatim>\<open>.\<close>, the
  others are wrapped in brackets. \<open>isIdentifier\<close> is what the code takes for a segment made
  of letters, which is not empty; \<open>claimedPath\<close> reads ``consisting only of letters'' and
  ``containing any non-letter character'' literally.
\<close>

definition isIdentifier :: "jsstring \<Rightarrow> bool" where
  "isIdentifier p = (p \<noteq> [] \<and> list_all isLetter p)"

definition isUnsafeChar :: "nat \<Rightarrow> bool" where
  "isUnsafeChar c = (c = 93 \<or> c = 34 \<or> c = 39 \<or> isWhiteSpace c)"

definition hasUnsafeChar :: "jsstring \<Rightarrow> bool" where
  "hasUnsafeChar p = list_ex isUnsafeChar p"

definition unrepresentable :: "jsstring \<Rightarrow> bool" where
  "unrepresentable p = (\<not> isIdentifier p \<and> hasUnsafeChar p)"

definition segmentText :: "bool \<Rightarrow> jsstring \<Rightarrow> jsstring" where
  "segmentText first p =
     (if isIdentifier p then (if first then p else js ''.'' @ p) else js ''['' @ p @ js '']'')"

fun dottedPath :: "jsstring list \<Rightarrow> jsstring" where
  "dottedPath [] = []"
| "dottedPath (p # ps) = segmentText True p @ concat (map (segmentText False) ps)"

definition claimedSegmentText :: "bool \<Rightarrow> jsstring \<Rightarrow> jsstring" where
  "claimedSegmentText first p =
     (if list_all isLetter p then (if first then p else js ''.'' @ p)
      else js ''['' @ p @ js '']'')"

fun claimedPath :: "jsstring list \<Rightarrow> jsstring" where
  "claimedPath [] = []"
| "claimedPath (p # ps) = claimedSegmentText True p @ concat (map (claimedSegmentText False) ps)"

text \<open>No entry of a sequence of instances is deeply equal in its values to a later one.\<close>

definition distinctValues :: "('v \<Rightarrow> 'v \<Rightarrow> bool) \<Rightarrow> 'v IcuMessageInstance list \<Rightarrow> bool" where
  "distinctValues eq l =
     (\<forall>i j. i < j \<longrightarrow> j < length l \<longrightarrow> \<not> eq (inst_values (l ! i)) (inst_values (l ! j)))"

text \<open>
  The value that the specification gives a placeholder of a message: rounded to a multiple
  of 10 under the style \<^verbatim>\<open>milliseconds\<close>, in seconds with one decimal place under
  \<^verbatim>\<open>seconds\<close> when the placeholder is \<^verbatim>\<open>timeInMs\<close>, divided by 1024 under
  \<^verbatim>\<open>bytes\<close>, and unchanged otherwise.
\<close>

definition rewrittenValue :: "element \<Rightarrow> rat \<Rightarrow> rat" where
  "rewrittenValue el x =
     (if styleOf el = Some (js ''milliseconds'') then Math_round (x / 10) * 10
      else if styleOf el = Some (js ''seconds'') \<and> isTimeInMs el then Math_round (x / 100) / 10
      else if styleOf el = Some (js ''bytes'') then x / 1024
      else x)"

text \<open>
  The progressively shorter prefixes of a tag: the tag, then the tag without its last
  subtag, and so on.
\<close>

definition tagPrefixes :: "jsstring \<Rightarrow> jsstring list" where
  "tagPrefixes tag =
     map (\<lambda>k. join 45 (take k (split 45 tag))) (rev [1 ..< Suc (length (split 45 tag))])"

section \<open>A sample environment\<close>

text \<open>
  Catalogs for \<^verbatim>\<open>en\<close>, \<^verbatim>\<open>de\<close> and \<^verbatim>\<open>de-CH\<close>; a parser that knows six messages
  and gives what \<^verbatim>\<open>intl-messageformat-parser\<close> gives for them; a formatter that returns
  the message as it is; paths that are already relative.
\<close>

definition sampleLocales :: "jsstring \<Rightarrow> (jsstring \<Rightarrow> jsstring option) option" where
  "sampleLocales l =
     (if l = js ''en'' \<or> l = js ''de'' \<or> l = js ''de-CH'' then Some (\<lambda>icuMessageId. None)
      else None)"

definition sampleMessages :: "(jsstring \<times> element list) list" where
  "sampleMessages =
     [(js ''URL'', [MessageTextElement (js ''URL'')]),
      (js ''{timeInMs, number, milliseconds}'' @ [160] @ js ''ms'',
         [ArgumentElement (js ''timeInMs'') (Some (NumberFormat (Some (js ''milliseconds'')))),
          MessageTextElement ([160] @ js ''ms'')]),
      (js ''Potential savings of {wastedMs, number, milliseconds}'' @ [160] @ js ''ms'',
         [MessageTextElement (js ''Potential savings of ''),
          ArgumentElement (js ''wastedMs'') (Some (NumberFormat (Some (js ''milliseconds'')))),
          MessageTextElement ([160] @ js ''ms'')]),
      (js ''{timeInMs, number, seconds}'' @ [160] @ js ''s'',
         [ArgumentElement (js ''timeInMs'') (Some (NumberFormat (Some (js ''seconds'')))),
          MessageTextElement ([160] @ js ''s'')]),
      (js ''{constructor}'', [ArgumentElement (js ''constructor'') None]),
      (js ''{size, number, bytes} of {size, number, bytes}'',
         [ArgumentElement (js ''size'') (Some (NumberFormat (Some (js ''bytes'')))),
          MessageTextElement (js '' of ''),
          ArgumentElement (js ''size'') (Some (NumberFormat (Some (js ''bytes''))))])]"

definition sampleParse :: "jsstring \<Rightarrow> error + element list" where
  "sampleParse icuMessage =
     (case map_of sampleMessages icuMessage of
        Some elements \<Rightarrow> Inr elements
      | None \<Rightarrow> Inl (LibraryError (js ''SyntaxError'')))"

definition sampleEnv :: env where
  "sampleEnv =
     \<lparr>LOCALES = sampleLocales,
      parse = sampleParse,
      messageFormat = (\<lambda>icuMessage locale vals. Inr icuMessage),
      relative = (\<lambda>filename. filename),
      thisFilename = js ''lighthouse-core/lib/i18n/i18n.js'',
      langtagGrammar = (\<lambda>tag. True),
      canonicalizeLanguageTag = (\<lambda>tag. tag)\<rparr>"

text \<open>
  A use of the shared message \<^verbatim>\<open>UIStrings.ms\<close> by an audit, and the maps after a first
  registration and after a second one with other values.
\<close>

definition msTemplate :: jsstring where
  "msTemplate = js ''{timeInMs, number, milliseconds}'' @ [160] @ js ''ms''"

definition sampleFile :: jsstring where
  "sampleFile = js ''lighthouse-core/audits/metrics.js''"

definition sampleStrings :: "jsstring jsobject" where
  "sampleStrings = [(js ''title'', js ''Metrics'')]"

definition sampleId :: jsstring where
  "sampleId = js ''lighthouse-core/lib/i18n/i18n.js | ms''"

definition sampleInstance :: "rat jsobject option \<Rightarrow> rat jsobject option IcuMessageInstance" where
  "sampleInstance v =
     \<lparr>inst_icuMessageId = sampleId, inst_icuMessage = msTemplate, inst_values = v\<rparr>"

definition sampleMap1 :: "rat jsobject option instanceMap" where
  "sampleMap1 = [sampleId \<mapsto> [sampleInstance (Some [(js ''timeInMs'', 63)])]]"

definition sampleMap2 :: "rat jsobject option instanceMap" where
  "sampleMap2 =
     [sampleId \<mapsto> [sampleInstance (Some [(js ''timeInMs'', 63)]),
                    sampleInstance (Some [(js ''timeInMs'', 1200)])]]"

section \<open>The matcher\<close>


lemma le_length_takeWhile:
  "k \<le> length (takeWhile P s) \<longleftrightarrow> k \<le> length s \<and> (\<forall>x\<in>set (take k s). P x)"
proof (induction s arbitrary: k)
  case Nil
  then show ?case by simp
next
  case (Cons y ys)
  show ?case
  proof (cases k)
    case 0
    then show ?thesis by simp
  next
    case (Suc j)
    then show ?thesis using Cons.IH [of j] by auto
  qed
qed

lemma split_by_prefix:
  "(k \<le> length s \<and> (\<forall>x\<in>set (take k s). P x) \<and> s' = drop k s) \<longleftrightarrow>
   (\<exists>a. s = a @ s' \<and> length a = k \<and> (\<forall>x\<in>set a. P x))"
proof
  assume h: "k \<le> length s \<and> (\<forall>x\<in>set (take k s). P x) \<and> s' = drop k s"
  then have "s = take k s @ s'" "length (take k s) = k" by auto
  with h show "\<exists>a. s = a @ s' \<and> length a = k \<and> (\<forall>x\<in>set a. P x)" by blast
next
  assume "\<exists>a. s = a @ s' \<and> length a = k \<and> (\<forall>x\<in>set a. P x)"
  then show "k \<le> length s \<and> (\<forall>x\<in>set (take k s). P x) \<and> s' = drop k s" by auto
qed

lemma in_bt_Star:
  "(s', cs') \<in> set (bt n (Star c) (s, cs)) \<longleftrightarrow>
   cs' = cs \<and> (\<exists>a. s = a @ s' \<and> (\<forall>x\<in>set a. cmem c x))"
proof -
  have "(s', cs') \<in> set (bt n (Star c) (s, cs)) \<longleftrightarrow>
        cs' = cs \<and> (\<exists>k. k \<le> length s \<and> (\<forall>x\<in>set (take k s). cmem c x) \<and> s' = drop k s)"
    by (auto simp del: upt_Suc simp add: le_length_takeWhile less_Suc_eq_le image_iff)
  also have "\<dots> \<longleftrightarrow> cs' = cs \<and> (\<exists>k a. s = a @ s' \<and> length a = k \<and> (\<forall>x\<in>set a. cmem c x))"
    by (simp only: split_by_prefix)
  finally show ?thesis by auto
qed

lemma in_bt_Plus:
  "(s', cs') \<in> set (bt n (Plus c) (s, cs)) \<longleftrightarrow>
   cs' = cs \<and> (\<exists>a. s = a @ s' \<and> a \<noteq> [] \<and> (\<forall>x\<in>set a. cmem c x))"
proof -
  have "(s', cs') \<in> set (bt n (Plus c) (s, cs)) \<longleftrightarrow>
        cs' = cs \<and> (\<exists>k. 1 \<le> k \<and> (k \<le> length s \<and> (\<forall>x\<in>set (take k s). cmem c x) \<and> s' = drop k s))"
    by (auto simp del: upt_Suc simp add: le_length_takeWhile less_Suc_eq_le image_iff Suc_le_eq)
  also have "\<dots> \<longleftrightarrow> cs' = cs \<and> (\<exists>k. 1 \<le> k \<and> (\<exists>a. s = a @ s' \<and> length a = k \<and> (\<forall>x\<in>set a. cmem c x)))"
    by (simp only: split_by_prefix)
  also have "\<dots> \<longleftrightarrow> cs' = cs \<and> (\<exists>a. s = a @ s' \<and> a \<noteq> [] \<and> (\<forall>x\<in>set a. cmem c x))"
    by (auto simp: Suc_le_eq)
  finally show ?thesis .
qed

lemma in_bt_Str:
  "(s', cs') \<in> set (bt n (Str l) (s, cs)) \<longleftrightarrow> cs' = cs \<and> s = l @ s'"
proof -
  have "take (length l) s = l \<and> s' = drop (length l) s \<longleftrightarrow> s = l @ s'"
    by (metis append_eq_conv_conj)
  then show ?thesis by auto
qed

lemma in_bt_Seq:
  "st' \<in> set (bt n (Seq r1 r2) st) \<longleftrightarrow> (\<exists>m \<in> set (bt n r1 st). st' \<in> set (bt n r2 m))"
  by auto

lemma in_bt_Group:
  "(s', cs') \<in> set (bt n (Group r) (s, cs)) \<longleftrightarrow>
   (\<exists>cs1. (s', cs1) \<in> set (bt n r (s, cs)) \<and> cs' = cs1 @ [take (length s - length s') s])"
  by (force simp: image_iff)

lemma in_bt_Eol:
  "(s', cs') \<in> set (bt n Eol (s, cs)) \<longleftrightarrow> s = [] \<and> s' = [] \<and> cs' = cs"
  by auto

lemma in_bt_Bol:
  "(s', cs') \<in> set (bt n Bol (s, cs)) \<longleftrightarrow> length s = n \<and> s' = s \<and> cs' = cs"
  by auto

lemma in_bt_Atom:
  "(s', cs') \<in> set (bt n (Atom c) (s, cs)) \<longleftrightarrow> (\<exists>x. s = x # s' \<and> cmem c x) \<and> cs' = cs"
  by (auto split: list.splits)

lemma in_bt_Alt:
  "st' \<in> set (bt n (Alt r1 r2) st) \<longleftrightarrow> st' \<in> set (bt n r1 st) \<or> st' \<in> set (bt n r2 st)"
  by auto

lemmas in_bt = in_bt_Star in_bt_Plus in_bt_Str in_bt_Seq in_bt_Group in_bt_Eol in_bt_Bol
  in_bt_Atom in_bt_Alt




lemma in_bt_key:
  "(s', cs') \<in> set (bt n (Group (Seq (Star Dot) (Seq (Str keySeparator) (Star Dot)))) (s, cs)) \<longleftrightarrow>
   (\<exists>a b. s = a @ keySeparator @ b @ s' \<and> (\<forall>x\<in>set a. \<not> isLineTerminator x) \<and>
          (\<forall>x\<in>set b. \<not> isLineTerminator x) \<and> cs' = cs @ [a @ keySeparator @ b])"
  (is "?L \<longleftrightarrow> ?R")
proof
  assume ?L
  then obtain cs1 where g: "(s', cs1) \<in> set (bt n (Seq (Star Dot) (Seq (Str keySeparator) (Star Dot))) (s, cs))"
    and c: "cs' = cs1 @ [take (length s - length s') s]"
    unfolding in_bt_Group by blast
  from g obtain m1 m2 where
    1: "m1 \<in> set (bt n (Star Dot) (s, cs))" and
    2: "m2 \<in> set (bt n (Str keySeparator) m1)" and
    3: "(s', cs1) \<in> set (bt n (Star Dot) m2)"
    unfolding in_bt_Seq by blast
  obtain s1 c1 where m1: "m1 = (s1, c1)" by (cases m1)
  obtain s2 c2 where m2: "m2 = (s2, c2)" by (cases m2)
  from 1 obtain a where a: "s = a @ s1" "c1 = cs" "\<forall>x\<in>set a. \<not> isLineTerminator x"
    unfolding in_bt_Star m1 by auto
  from 2 have b: "s1 = keySeparator @ s2" "c2 = c1"
    unfolding in_bt_Str m1 m2 by simp_all
  from 3 obtain b where d: "s2 = b @ s'" "cs1 = c2" "\<forall>x\<in>set b. \<not> isLineTerminator x"
    unfolding in_bt_Star m2 by auto
  have e: "s = a @ keySeparator @ b @ s'" by (simp add: a(1) b(1) d(1))
  have f: "take (length s - length s') s = a @ keySeparator @ b" by (simp add: e)
  have "cs' = cs @ [a @ keySeparator @ b]" by (simp add: c f d(2) b(2) a(2))
  with e a(3) d(3) show ?R by blast
next
  assume ?R
  then obtain a b where s: "s = a @ keySeparator @ b @ s'" and a: "\<forall>x\<in>set a. \<not> isLineTerminator x"
    and b: "\<forall>x\<in>set b. \<not> isLineTerminator x" and c: "cs' = cs @ [a @ keySeparator @ b]"
    by blast
  have 1: "(keySeparator @ b @ s', cs) \<in> set (bt n (Star Dot) (s, cs))"
    unfolding in_bt_Star using s a by simp
  have 2: "(b @ s', cs) \<in> set (bt n (Str keySeparator) (keySeparator @ b @ s', cs))"
    unfolding in_bt_Str by simp
  have 3: "(s', cs) \<in> set (bt n (Star Dot) (b @ s', cs))"
    unfolding in_bt_Star using b by simp
  have "(s', cs) \<in> set (bt n (Seq (Star Dot) (Seq (Str keySeparator) (Star Dot))) (s, cs))"
    unfolding in_bt_Seq using 1 2 3 by blast
  moreover have "take (length s - length s') s = a @ keySeparator @ b" by (simp add: s)
  ultimately show ?L unfolding in_bt_Group using c by (intro exI [of _ cs]) simp
qed


lemma in_bt_index:
  "(s', cs') \<in> set (bt n (Seq (Str indexSeparator) (Seq (Group (Plus Digit)) Eol)) (s, cs)) \<longleftrightarrow>
   s' = [] \<and> (\<exists>d. s = indexSeparator @ d \<and> d \<noteq> [] \<and> (\<forall>x\<in>set d. isDigit x) \<and> cs' = cs @ [d])"
  (is "?L \<longleftrightarrow> ?R")
proof
  assume ?L
  then obtain m1 m2 where
    1: "m1 \<in> set (bt n (Str indexSeparator) (s, cs))" and
    2: "m2 \<in> set (bt n (Group (Plus Digit)) m1)" and
    3: "(s', cs') \<in> set (bt n Eol m2)"
    unfolding in_bt_Seq by blast
  obtain s1 c1 where m1: "m1 = (s1, c1)" by (cases m1)
  obtain s2 c2 where m2: "m2 = (s2, c2)" by (cases m2)
  from 1 have a: "s = indexSeparator @ s1" "c1 = cs" unfolding in_bt_Str m1 by simp_all
  from 2 obtain d where d: "s1 = d @ s2" "d \<noteq> []" "\<forall>x\<in>set d. isDigit x"
    "c2 = c1 @ [take (length s1 - length s2) s1]"
    unfolding in_bt_Group in_bt_Plus m1 m2 by auto
  from 3 have e: "s2 = []" "s' = []" "cs' = c2" unfolding in_bt_Eol m2 by simp_all
  have "s = indexSeparator @ d" by (simp add: a(1) d(1) e(1))
  moreover have "cs' = cs @ [d]" by (simp add: e d(1,4) a(2))
  ultimately show ?R using e(2) d(2,3) by blast
next
  assume ?R
  then obtain d where s: "s' = []" "s = indexSeparator @ d" "d \<noteq> []" "\<forall>x\<in>set d. isDigit x" "cs' = cs @ [d]"
    by blast
  have 1: "(d, cs) \<in> set (bt n (Str indexSeparator) (s, cs))" unfolding in_bt_Str using s(2) by simp
  have 2: "([], cs @ [d]) \<in> set (bt n (Group (Plus Digit)) (d, cs))"
    unfolding in_bt_Group in_bt_Plus using s(3,4) by simp
  have 3: "([], cs @ [d]) \<in> set (bt n Eol ([], cs @ [d]))" unfolding in_bt_Eol by simp
  show ?L unfolding in_bt_Seq s(1) s(5) using 1 2 3 by blast
qed

lemma MESSAGE_INSTANCE_ID_REGEX_eq:
  "MESSAGE_INSTANCE_ID_REGEX =
     Seq (Group (Seq (Star Dot) (Seq (Str keySeparator) (Star Dot)))) (Seq (Str indexSeparator) (Seq (Group (Plus Digit)) Eol))"
  by (simp add: MESSAGE_INSTANCE_ID_REGEX_def keySeparator_def indexSeparator_def)

lemma in_bt_MESSAGE_INSTANCE_ID_REGEX:
  "(s', cs') \<in> set (bt n MESSAGE_INSTANCE_ID_REGEX (s, [])) \<longleftrightarrow>
   s' = [] \<and> (\<exists>a b d. s = a @ keySeparator @ b @ indexSeparator @ d \<and> (\<forall>x\<in>set a. \<not> isLineTerminator x) \<and>
          (\<forall>x\<in>set b. \<not> isLineTerminator x) \<and> d \<noteq> [] \<and> (\<forall>x\<in>set d. isDigit x) \<and>
          cs' = [a @ keySeparator @ b, d])"
  (is "?L \<longleftrightarrow> ?R")
proof
  assume ?L
  then obtain m1 where 1: "m1 \<in> set (bt n (Group (Seq (Star Dot) (Seq (Str keySeparator) (Star Dot)))) (s, []))"
    and 2: "(s', cs') \<in> set (bt n (Seq (Str indexSeparator) (Seq (Group (Plus Digit)) Eol)) m1)"
    unfolding MESSAGE_INSTANCE_ID_REGEX_eq by (subst (asm) in_bt_Seq) blast
  obtain s1 c1 where m1: "m1 = (s1, c1)" by (cases m1)
  from 1 obtain a b where a: "s = a @ keySeparator @ b @ s1" "\<forall>x\<in>set a. \<not> isLineTerminator x"
       "\<forall>x\<in>set b. \<not> isLineTerminator x" "c1 = [a @ keySeparator @ b]"
    unfolding m1 in_bt_key by auto
  from 2 obtain d where d: "s' = []" "s1 = indexSeparator @ d" "d \<noteq> []" "\<forall>x\<in>set d. isDigit x" "cs' = c1 @ [d]"
    unfolding m1 in_bt_index by auto
  have "s = a @ keySeparator @ b @ indexSeparator @ d" by (simp add: a(1) d(2))
  moreover have "cs' = [a @ keySeparator @ b, d]" by (simp add: d(5) a(4))
  ultimately show ?R using d(1,3,4) a(2,3) by blast
next
  assume ?R
  then obtain a b d where s: "s' = []" "s = a @ keySeparator @ b @ indexSeparator @ d" "\<forall>x\<in>set a. \<not> isLineTerminator x"
          "\<forall>x\<in>set b. \<not> isLineTerminator x" "d \<noteq> []" "\<forall>x\<in>set d. isDigit x"
          "cs' = [a @ keySeparator @ b, d]" by blast
  have 1: "(indexSeparator @ d, [a @ keySeparator @ b]) \<in> set (bt n (Group (Seq (Star Dot) (Seq (Str keySeparator) (Star Dot)))) (s, []))"
    unfolding in_bt_key using s(2,3,4) by auto
  have 2: "(s', cs') \<in> set (bt n (Seq (Str indexSeparator) (Seq (Group (Plus Digit)) Eol)) (indexSeparator @ d, [a @ keySeparator @ b]))"
    unfolding in_bt_index using s(1,5,6,7) by auto
  show ?L unfolding MESSAGE_INSTANCE_ID_REGEX_eq by (subst in_bt_Seq) (use 1 2 in blast)
qed


lemma search_None_iff:
  "search n r s = None \<longleftrightarrow> (\<forall>t. suffix t s \<longrightarrow> bt n r (t, []) = [])"
proof (induction s)
  case Nil
  show ?case by (auto split: list.splits)
next
  case (Cons x xs)
  show ?case
  proof (cases "bt n r (x # xs, [])")
    case Nil
    then show ?thesis using Cons.IH by (auto simp: suffix_Cons)
  next
    case (Cons m ms)
    then have "search n r (x # xs) \<noteq> None" by (cases m) simp
    moreover have "suffix (x # xs) (x # xs)" by simp
    ultimately show ?thesis using Cons by (metis list.distinct(1))
  qed
qed

lemma search_first:
  assumes "bt n r (s, []) = (s', cs) # ms"
  shows "search n r s = Some (take (length s - length s') s # cs)"
  using assms by (cases s) simp_all

lemma takeWhile_all_then_stop:
  assumes "\<forall>x\<in>set d. P x" and "\<not> P y"
  shows "takeWhile P (d @ y # ys) = d"
  using assms by (induction d) simp_all

lemma not_digit_32: "\<not> isDigit 32"
  by (simp add: isDigit_def)

lemma indexSeparator_unfold: "indexSeparator = [32, 35, 32]"
  by (simp add: indexSeparator_def)

lemma split_digits_unique:
  assumes eq: "k @ indexSeparator @ d = k' @ indexSeparator @ d'"
    and d: "\<forall>x\<in>set d. isDigit x" and d': "\<forall>x\<in>set d'. isDigit x"
  shows "k = k' \<and> d = d'"
proof -
  have r: "rev (k @ indexSeparator @ d) = rev d @ 32 # ([35, 32] @ rev k)" for k d :: jsstring
    by (simp add: indexSeparator_unfold)
  have "takeWhile isDigit (rev (k @ indexSeparator @ d)) = rev d"
    unfolding r using d by (intro takeWhile_all_then_stop) (simp_all add: not_digit_32)
  moreover have "takeWhile isDigit (rev (k' @ indexSeparator @ d')) = rev d'"
    unfolding r using d' by (intro takeWhile_all_then_stop) (simp_all add: not_digit_32)
  ultimately have "rev d = rev d'" using eq by simp
  then have "d = d'" by simp
  with eq show ?thesis by simp
qed

lemma toString_digits: "\<forall>x\<in>set (toString n). isDigit x"
proof (induction n rule: toString.induct)
  case (1 n)
  show ?case
  proof (cases "n < 10")
    case True
    then show ?thesis by (subst toString.simps) (simp add: isDigit_def)
  next
    case False
    have "n mod 10 < 10" by simp
    then have "isDigit (48 + n mod 10)" unfolding isDigit_def by linarith
    with False 1 show ?thesis by (subst toString.simps) simp
  qed
qed

lemma toString_nonempty: "toString n \<noteq> []"
  by (subst toString.simps) simp

lemma Number_snoc: "Number (d @ [c]) = 10 * Number d + (c - 48)"
  by (simp add: Number_def)

lemma Number_toString: "Number (toString n) = n"
proof (induction n rule: toString.induct)
  case (1 n)
  show ?case
  proof (cases "n < 10")
    case True
    then show ?thesis by (subst toString.simps) (simp add: Number_def)
  next
    case False
    with 1 show ?thesis by (subst toString.simps) (simp add: Number_snoc)
  qed
qed

lemma match_encoded:
  assumes key: "key = a @ keySeparator @ b" and nolt: "\<forall>c\<in>set key. \<not> isLineTerminator c"
    and d: "d \<noteq> []" "\<forall>x\<in>set d. isDigit x"
  shows "regex_match MESSAGE_INSTANCE_ID_REGEX (key @ indexSeparator @ d) = Some [key @ indexSeparator @ d, key, d]"
proof -
  let ?s = "key @ indexSeparator @ d"
  let ?n = "length ?s"
  have "([], [key, d]) \<in> set (bt ?n MESSAGE_INSTANCE_ID_REGEX (?s, []))"
    unfolding in_bt_MESSAGE_INSTANCE_ID_REGEX using key nolt d by (intro conjI exI [of _ a] exI [of _ b] exI [of _ d]) simp_all
  then obtain m ms where ms: "bt ?n MESSAGE_INSTANCE_ID_REGEX (?s, []) = m # ms"
    by (cases "bt ?n MESSAGE_INSTANCE_ID_REGEX (?s, [])") auto
  obtain s' cs' where m: "m = (s', cs')" by (cases m)
  have "(s', cs') \<in> set (bt ?n MESSAGE_INSTANCE_ID_REGEX (?s, []))"
    unfolding ms m [symmetric] by (rule list.set_intros(1))
  then obtain a' b' d' where *: "s' = []" "?s = a' @ keySeparator @ b' @ indexSeparator @ d'" "\<forall>x\<in>set d'. isDigit x"
      "cs' = [a' @ keySeparator @ b', d']"
    unfolding in_bt_MESSAGE_INSTANCE_ID_REGEX by blast
  from *(2) have "key @ indexSeparator @ d = (a' @ keySeparator @ b') @ indexSeparator @ d'" by simp
  from split_digits_unique [OF this d(2) *(3)] have "a' @ keySeparator @ b' = key" "d' = d" by simp_all
  with * have "m = ([], [key, d])" by (simp add: m)
  with ms have "bt ?n MESSAGE_INSTANCE_ID_REGEX (?s, []) = ([], [key, d]) # ms" by simp
  from search_first [OF this] show ?thesis by (simp add: regex_match_def)
qed

lemma regex_test_iff_suffix:
  "regex_test r s \<longleftrightarrow> (\<exists>p t m. s = p @ t \<and> m \<in> set (bt (length s) r (t, [])))"
proof -
  have "regex_test r s \<longleftrightarrow> (\<exists>t. suffix t s \<and> bt (length s) r (t, []) \<noteq> [])"
    unfolding regex_test_def regex_match_def search_None_iff by blast
  also have "\<dots> \<longleftrightarrow> (\<exists>p t m. s = p @ t \<and> m \<in> set (bt (length s) r (t, [])))"
    unfolding suffix_def by (metis list.set_intros(1) neq_Nil_conv empty_iff list.set(1))
  finally show ?thesis .
qed

lemma test_MESSAGE_INSTANCE_ID_REGEX:
  "regex_test MESSAGE_INSTANCE_ID_REGEX s \<longleftrightarrow>
   (\<exists>p b d. s = p @ keySeparator @ b @ indexSeparator @ d \<and> (\<forall>x\<in>set b. \<not> isLineTerminator x) \<and>
            d \<noteq> [] \<and> (\<forall>x\<in>set d. isDigit x))"
  (is "?L \<longleftrightarrow> ?R")
proof
  assume ?L
  then obtain p t s' cs' where s: "s = p @ t"
    and m: "(s', cs') \<in> set (bt (length s) MESSAGE_INSTANCE_ID_REGEX (t, []))"
    unfolding regex_test_iff_suffix by auto
  from m obtain a b d where "t = a @ keySeparator @ b @ indexSeparator @ d" "\<forall>x\<in>set b. \<not> isLineTerminator x"
      "d \<noteq> []" "\<forall>x\<in>set d. isDigit x"
    unfolding in_bt_MESSAGE_INSTANCE_ID_REGEX by blast
  with s have "s = (p @ a) @ keySeparator @ b @ indexSeparator @ d" by simp
  then show ?R using \<open>\<forall>x\<in>set b. \<not> isLineTerminator x\<close> \<open>d \<noteq> []\<close> \<open>\<forall>x\<in>set d. isDigit x\<close> by blast
next
  assume ?R
  then obtain p b d where s: "s = p @ keySeparator @ b @ indexSeparator @ d" and b: "\<forall>x\<in>set b. \<not> isLineTerminator x"
    and d: "d \<noteq> []" "\<forall>x\<in>set d. isDigit x" by blast
  have "([], [[] @ keySeparator @ b, d]) \<in> set (bt (length s) MESSAGE_INSTANCE_ID_REGEX (keySeparator @ b @ indexSeparator @ d, []))"
    unfolding in_bt_MESSAGE_INSTANCE_ID_REGEX using b d
    by (intro conjI exI [of _ "[]"] exI [of _ b] exI [of _ d]) simp_all
  with s show ?L unfolding regex_test_iff_suffix by blast
qed

lemma test_MESSAGE_INSTANCE_ID_QUICK_REGEX:
  "regex_test MESSAGE_INSTANCE_ID_QUICK_REGEX s \<longleftrightarrow>
   (\<exists>p d. s = p @ indexSeparator @ d \<and> d \<noteq> [] \<and> (\<forall>x\<in>set d. isDigit x))"
  (is "?L \<longleftrightarrow> ?R")
proof
  assume ?L
  then obtain p t m where s: "s = p @ t"
    and m: "m \<in> set (bt (length s) (Seq (Str indexSeparator) (Seq (Plus Digit) Eol)) (t, []))"
    unfolding regex_test_iff_suffix MESSAGE_INSTANCE_ID_QUICK_REGEX_def indexSeparator_def by blast
  from m obtain m1 m2 where
    1: "m1 \<in> set (bt (length s) (Str indexSeparator) (t, []))" and
    2: "m2 \<in> set (bt (length s) (Plus Digit) m1)" and
    3: "m \<in> set (bt (length s) Eol m2)"
    unfolding in_bt_Seq by blast
  obtain s1 c1 where m1: "m1 = (s1, c1)" by (cases m1)
  obtain s2 c2 where m2: "m2 = (s2, c2)" by (cases m2)
  obtain s3 c3 where m3: "m = (s3, c3)" by (cases m)
  from 1 have a: "t = indexSeparator @ s1" unfolding in_bt_Str m1 by simp
  from 2 obtain d where d: "s1 = d @ s2" "d \<noteq> []" "\<forall>x\<in>set d. isDigit x"
    unfolding in_bt_Plus m1 m2 by auto
  from 3 have e: "s2 = []" unfolding in_bt_Eol m2 m3 by simp
  have "s = p @ indexSeparator @ d" by (simp add: s a d(1) e)
  with d(2,3) show ?R by blast
next
  assume ?R
  then obtain p d where s: "s = p @ indexSeparator @ d" "d \<noteq> []" "\<forall>x\<in>set d. isDigit x" by blast
  have 1: "(d, []) \<in> set (bt (length s) (Str indexSeparator) (indexSeparator @ d, []))" unfolding in_bt_Str by simp
  have 2: "([], []) \<in> set (bt (length s) (Plus Digit) (d, []))"
    unfolding in_bt_Plus using s(2,3) by simp
  have 3: "([], []) \<in> set (bt (length s) Eol ([], []))" unfolding in_bt_Eol by simp
  have "([], []) \<in> set (bt (length s) (Seq (Str indexSeparator) (Seq (Plus Digit) Eol)) (indexSeparator @ d, []))"
    unfolding in_bt_Seq using 1 2 3 by blast
  with s(1) show ?L
    unfolding regex_test_iff_suffix MESSAGE_INSTANCE_ID_QUICK_REGEX_def indexSeparator_def by blast
qed

lemma quick_regex_is_implied:
  "regex_test MESSAGE_INSTANCE_ID_REGEX s \<Longrightarrow> regex_test MESSAGE_INSTANCE_ID_QUICK_REGEX s"
  unfolding test_MESSAGE_INSTANCE_ID_REGEX test_MESSAGE_INSTANCE_ID_QUICK_REGEX
  by (metis append.assoc)

section \<open>Tokens: recognition and decoding\<close>

lemma isIcuMessage_eq_full: "isIcuMessage s \<longleftrightarrow> regex_test MESSAGE_INSTANCE_ID_REGEX s"
  unfolding isIcuMessage_def using quick_regex_is_implied by blast

text \<open>
  Claim C4, as the code has it: \<open>isIcuMessage s\<close> holds exactly when \<open>s\<close> ends with
  \<^verbatim>\<open>" | "\<close>, then code units none of which is a line terminator, then \<^verbatim>\<open>" # "\<close> and
  a non-empty run of digits; the quick pattern does not change what the full pattern
  accepts; and the token made from a file name, a property name without line terminator and
  an index below \<open>2^53\<close> is accepted.
\<close>

theorem isIcuMessage_shape:
  "(isIcuMessage s \<longleftrightarrow>
      (\<exists>p b d. s = p @ keySeparator @ b @ indexSeparator @ d \<and>
         (\<forall>c\<in>set b. \<not> isLineTerminator c) \<and> d \<noteq> [] \<and> (\<forall>c\<in>set d. isDigit c))) \<and>
   (isIcuMessage s \<longleftrightarrow> regex_test MESSAGE_INSTANCE_ID_REGEX s) \<and>
   ((\<forall>c\<in>set name. \<not> isLineTerminator c) \<and> i < 2 ^ 53 \<longrightarrow>
      isIcuMessage ((file @ keySeparator @ name) @ indexSeparator @ toString i))"
proof (intro conjI impI)
  show "isIcuMessage s \<longleftrightarrow>
      (\<exists>p b d. s = p @ keySeparator @ b @ indexSeparator @ d \<and>
         (\<forall>c\<in>set b. \<not> isLineTerminator c) \<and> d \<noteq> [] \<and> (\<forall>c\<in>set d. isDigit c))"
    unfolding isIcuMessage_eq_full by (rule test_MESSAGE_INSTANCE_ID_REGEX)
  show "isIcuMessage s \<longleftrightarrow> regex_test MESSAGE_INSTANCE_ID_REGEX s"
    by (rule isIcuMessage_eq_full)
  assume "(\<forall>c\<in>set name. \<not> isLineTerminator c) \<and> i < 2 ^ 53"
  then have "\<exists>p b d. (file @ keySeparator @ name) @ indexSeparator @ toString i
        = p @ keySeparator @ b @ indexSeparator @ d \<and>
         (\<forall>c\<in>set b. \<not> isLineTerminator c) \<and> d \<noteq> [] \<and> (\<forall>c\<in>set d. isDigit c)"
    using toString_digits toString_nonempty
    by (intro exI [of _ "file"] exI [of _ name] exI [of _ "toString i"]) simp
  then show "isIcuMessage ((file @ keySeparator @ name) @ indexSeparator @ toString i)"
    unfolding isIcuMessage_eq_full test_MESSAGE_INSTANCE_ID_REGEX .
qed

theorem isIcuMessage_shape_witness:
  "list_all (\<lambda>c. \<not> isLineTerminator c) (js ''title'') \<and>
   isIcuMessage ((js ''core/a.js'' @ keySeparator @ js ''title'') @ indexSeparator @ toString 12) \<and>
   regex_test MESSAGE_INSTANCE_ID_REGEX
     ((js ''core/a.js'' @ keySeparator @ js ''title'') @ indexSeparator @ toString 12)"
proof -
  have h: "\<forall>c\<in>set (js ''title''). \<not> isLineTerminator c"
    by (simp add: isLineTerminator_def)
  have b: "(12::nat) < 2 ^ 53" by simp
  from isIcuMessage_shape
    [of "(js ''core/a.js'' @ keySeparator @ js ''title'') @ indexSeparator @ toString 12"
        "js ''title''" 12 "js ''core/a.js''"]
  show ?thesis using h b unfolding list_all_iff by blast
qed

theorem isIcuMessage_line_terminator_counterexample:
  "tokenShape (js ''a | b'' @ [10] @ js ''c # 0'') \<and>
   \<not> isIcuMessage (js ''a | b'' @ [10] @ js ''c # 0'')"
proof
  show "tokenShape (js ''a | b'' @ [10] @ js ''c # 0'')"
    unfolding tokenShape_def
    by (intro exI [of _ "js ''a''"] exI [of _ "js ''b'' @ [10] @ js ''c''"] exI [of _ "js ''0''"])
       (simp add: keySeparator_def indexSeparator_def isDigit_def)
  show "\<not> isIcuMessage (js ''a | b'' @ [10] @ js ''c # 0'')"
    by (simp add: isIcuMessage_def regex_test_def regex_match_def MESSAGE_INSTANCE_ID_REGEX_def
        MESSAGE_INSTANCE_ID_QUICK_REGEX_def isLineTerminator_def isDigit_def)
qed

lemma resolve_of_match:
  assumes "regex_match MESSAGE_INSTANCE_ID_REGEX tok = Some [whole, key, d]"
  shows "resolveIcuMessageInstanceId E m tok locale =
     (if Number d < length (instancesOf m key) then
        (case formatIcuMessage E locale key
                (Some (inst_icuMessage (instancesOf m key ! Number d)))
                (inst_values (instancesOf m key ! Number d)) of
           Inl e \<Rightarrow> Inl e
         | Inr (formattedString, icuMessage) \<Rightarrow> Inr (instancesOf m key ! Number d, formattedString))
      else Inl (TypeError (js ''icuMessage'')))"
  unfolding resolveIcuMessageInstanceId_def assms by (simp add: Let_def)

text \<open>
  Claim C3, as the code has it: for a message key that contains \<^verbatim>\<open>" | "\<close> and no line
  terminator, and for every index \<open>i\<close> below \<open>2^53\<close>, the pattern splits the token
  \<^verbatim>\<open>"<key> # <i>"\<close> into exactly that key and the digits of \<open>i\<close>, whose number is \<open>i\<close>;
  and resolving the token looks up the instance \<open>i\<close> of that key.
\<close>

theorem decode_encode:
  assumes "\<forall>c\<in>set key. \<not> isLineTerminator c" and "key = a @ keySeparator @ b"
    and "i < 2 ^ 53"
  shows "regex_match MESSAGE_INSTANCE_ID_REGEX (key @ indexSeparator @ toString i)
           = Some [key @ indexSeparator @ toString i, key, toString i] \<and>
         Number (toString i) = i \<and>
         resolveIcuMessageInstanceId E m (key @ indexSeparator @ toString i) locale =
           (if i < length (instancesOf m key) then
              (case formatIcuMessage E locale key
                      (Some (inst_icuMessage (instancesOf m key ! i)))
                      (inst_values (instancesOf m key ! i)) of
                 Inl e \<Rightarrow> Inl e
               | Inr (formattedString, icuMessage) \<Rightarrow> Inr (instancesOf m key ! i, formattedString))
            else Inl (TypeError (js ''icuMessage'')))"
proof -
  have hit: "regex_match MESSAGE_INSTANCE_ID_REGEX (key @ indexSeparator @ toString i)
           = Some [key @ indexSeparator @ toString i, key, toString i]"
    using assms(1,2) toString_nonempty toString_digits
    by (intro match_encoded [of key a b]) auto
  show ?thesis
    using hit resolve_of_match [OF hit, of E m "locale"] unfolding Number_toString by simp
qed

theorem decode_encode_witness:
  "list_all (\<lambda>c. \<not> isLineTerminator c) (js ''core/a.js | title'') \<and>
   js ''core/a.js | title'' = js ''core/a.js'' @ keySeparator @ js ''title'' \<and>
   regex_match MESSAGE_INSTANCE_ID_REGEX (js ''core/a.js | title'' @ indexSeparator @ toString 12)
     = Some [js ''core/a.js | title'' @ indexSeparator @ toString 12, js ''core/a.js | title'',
             toString 12] \<and>
   Number (toString 12) = 12"
proof -
  have h1: "\<forall>c\<in>set (js ''core/a.js | title''). \<not> isLineTerminator c"
    by (simp add: isLineTerminator_def)
  have h2: "js ''core/a.js | title'' = js ''core/a.js'' @ keySeparator @ js ''title''"
    by (simp add: keySeparator_def)
  have h3: "(12::nat) < 2 ^ 53" by simp
  from decode_encode [OF h1 h2 h3, of sampleEnv "Map.empty" "js ''en''"] h1 h2
  show ?thesis unfolding list_all_iff by blast
qed

theorem decode_line_terminator_counterexample:
  "regex_match MESSAGE_INSTANCE_ID_REGEX
     ((js ''x'' @ [10] @ js ''y | z'') @ js '' # '' @ toString 7)
     = Some [js ''y | z # 7'', js ''y | z'', js ''7''] \<and>
   js ''y | z'' \<noteq> js ''x'' @ [10] @ js ''y | z''"
  by (simp add: regex_match_def MESSAGE_INSTANCE_ID_REGEX_def isLineTerminator_def isDigit_def
      toString.simps)

section \<open>Plain strings pass through\<close>

text \<open>
  Claim C10: for every string \<open>s\<close> for which \<open>isIcuMessage s\<close> is false, and for every
  locale, map of instances and environment, \<open>getFormatted\<close> returns \<open>s\<close> itself.
\<close>

theorem getFormatted_plain:
  "\<not> isIcuMessage s \<Longrightarrow> getFormatted E m s locale = Inr s"
  by (simp add: getFormatted_def)

theorem getFormatted_plain_witness:
  "\<not> isIcuMessage (js ''Potential Savings'') \<and>
   getFormatted sampleEnv Map.empty (js ''Potential Savings'') (js ''de'')
     = Inr (js ''Potential Savings'')"
proof -
  have h: "\<not> isIcuMessage (js ''Potential Savings'')"
    by (simp add: isIcuMessage_def regex_test_def regex_match_def
        MESSAGE_INSTANCE_ID_QUICK_REGEX_def isDigit_def)
  from getFormatted_plain [OF h, of sampleEnv "Map.empty" "js ''de''"] h
  show ?thesis by blast
qed

section \<open>Paths\<close>

lemma test_IDENTIFIER_REGEX: "regex_test IDENTIFIER_REGEX p \<longleftrightarrow> isIdentifier p"
proof
  assume "regex_test IDENTIFIER_REGEX p"
  then obtain pre t m where p: "p = pre @ t"
    and m: "m \<in> set (bt (length p) (Seq Bol (Seq (Plus AlphaCI) Eol)) (t, []))"
    unfolding regex_test_iff_suffix IDENTIFIER_REGEX_def by blast
  from m obtain m1 m2 where
    1: "m1 \<in> set (bt (length p) Bol (t, []))" and
    2: "m2 \<in> set (bt (length p) (Plus AlphaCI) m1)" and
    3: "m \<in> set (bt (length p) Eol m2)"
    unfolding in_bt_Seq by blast
  obtain s1 c1 where m1: "m1 = (s1, c1)" by (cases m1)
  obtain s2 c2 where m2: "m2 = (s2, c2)" by (cases m2)
  obtain s3 c3 where m3: "m = (s3, c3)" by (cases m)
  from 1 have a: "length t = length p" "s1 = t" unfolding in_bt_Bol m1 by simp_all
  from 2 obtain w where w: "s1 = w @ s2" "w \<noteq> []" "\<forall>x\<in>set w. isLetter x"
    unfolding in_bt_Plus m1 m2 by auto
  from 3 have e: "s2 = []" unfolding in_bt_Eol m2 m3 by simp
  from a p have "pre = []" by simp
  with p a w e have "p = w" by simp
  with w show "isIdentifier p" by (simp add: isIdentifier_def list_all_iff)
next
  assume i: "isIdentifier p"
  have 1: "(p, []) \<in> set (bt (length p) Bol (p, []))" unfolding in_bt_Bol by simp
  have 2: "([], []) \<in> set (bt (length p) (Plus AlphaCI) (p, []))"
    unfolding in_bt_Plus using i by (simp add: isIdentifier_def list_all_iff)
  have 3: "([], []) \<in> set (bt (length p) Eol ([], []))" unfolding in_bt_Eol by simp
  have "([], []) \<in> set (bt (length p) (Seq Bol (Seq (Plus AlphaCI) Eol)) (p, []))"
    unfolding in_bt_Seq using 1 2 3 by blast
  then have "\<exists>pre t m. p = pre @ t \<and>
      m \<in> set (bt (length p) (Seq Bol (Seq (Plus AlphaCI) Eol)) (t, []))"
    by (intro exI [of _ "[]"] exI [of _ p] exI [of _ "([], [])"]) simp
  then show "regex_test IDENTIFIER_REGEX p"
    unfolding regex_test_iff_suffix IDENTIFIER_REGEX_def .
qed

lemma in_bt_UNSAFE:
  "m \<in> set (bt n UNSAFE_REGEX (t, [])) \<longleftrightarrow> (\<exists>c s'. t = c # s' \<and> isUnsafeChar c \<and> m = (s', []))"
proof -
  obtain s' cs' where m: "m = (s', cs')" by (cases m)
  show ?thesis
    unfolding UNSAFE_REGEX_def m in_bt_Alt in_bt_Str in_bt_Atom isUnsafeChar_def
    by (auto simp: cmem.simps)
qed

lemma test_UNSAFE_REGEX: "regex_test UNSAFE_REGEX p \<longleftrightarrow> hasUnsafeChar p"
proof
  assume "regex_test UNSAFE_REGEX p"
  then obtain pre t m where p: "p = pre @ t" and m: "m \<in> set (bt (length p) UNSAFE_REGEX (t, []))"
    unfolding regex_test_iff_suffix by blast
  from m obtain c s' where "t = c # s'" "isUnsafeChar c" unfolding in_bt_UNSAFE by blast
  with p show "hasUnsafeChar p" by (auto simp: hasUnsafeChar_def list_ex_iff)
next
  assume "hasUnsafeChar p"
  then obtain c where c: "c \<in> set p" "isUnsafeChar c" by (auto simp: hasUnsafeChar_def list_ex_iff)
  then obtain ys zs where p: "p = ys @ c # zs" by (meson split_list)
  have "(zs, []) \<in> set (bt (length p) UNSAFE_REGEX (c # zs, []))"
    unfolding in_bt_UNSAFE using c(2) by simp
  with p show "regex_test UNSAFE_REGEX p" unfolding regex_test_iff_suffix by blast
qed

lemma segmentText_simps:
  "isIdentifier p \<Longrightarrow> segmentText True p = p"
  "isIdentifier p \<Longrightarrow> segmentText False p = js ''.'' @ p"
  "\<not> isIdentifier p \<Longrightarrow> segmentText first p = js ''['' @ p @ js '']''"
  by (simp_all add: segmentText_def)

lemma segmentText_not_Nil: "segmentText first p \<noteq> []"
  by (auto simp: segmentText_def isIdentifier_def)

lemma formatPathLoop_nonempty:
  "acc \<noteq> [] \<Longrightarrow>
   formatPathLoop acc ps =
     (case find unrepresentable ps of
        Some p \<Rightarrow> Inl (CannotHandle p)
      | None \<Rightarrow> Inr (acc @ concat (map (segmentText False) ps)))"
proof (induction ps arbitrary: acc)
  case Nil
  then show ?case by simp
next
  case (Cons p ps)
  show ?case
  proof (cases "isIdentifier p")
    case True
    have "acc @ js ''.'' @ p \<noteq> []" using Cons.prems by simp
    from Cons.IH [OF this] True Cons.prems show ?thesis
      by (simp add: test_IDENTIFIER_REGEX unrepresentable_def segmentText_simps split: option.splits)
  next
    case False
    show ?thesis
    proof (cases "hasUnsafeChar p")
      case True
      with False show ?thesis
        by (simp add: test_IDENTIFIER_REGEX test_UNSAFE_REGEX unrepresentable_def)
    next
      case nu: False
      have "acc @ js ''['' @ p @ js '']'' \<noteq> []" by simp
      from Cons.IH [OF this] False nu show ?thesis
        by (simp add: test_IDENTIFIER_REGEX test_UNSAFE_REGEX unrepresentable_def segmentText_simps
            split: option.splits)
    qed
  qed
qed

text \<open>
  Claim C9, as the code has it: a segment that is not empty and is made of letters only is
  appended as it is, after a \<^verbatim>\<open>.\<close> unless it is the first segment; every other
  segment (one with a character that is not a letter, and the empty segment) is wrapped in
  brackets; the result is an error, which names the segment, as soon as a segment to wrap
  contains \<^verbatim>\<open>]\<close>, a single or double quote or white space, and the path otherwise.
\<close>

theorem formatPathAsString_eq:
  "formatPathAsString path =
     (case find unrepresentable path of
        Some p \<Rightarrow> Inl (CannotHandle p)
      | None \<Rightarrow> Inr (dottedPath path))"
proof (cases path)
  case Nil
  then show ?thesis by (simp add: formatPathAsString_def)
next
  case (Cons p ps)
  show ?thesis
  proof (cases "unrepresentable p")
    case True
    then show ?thesis
      unfolding Cons formatPathAsString_def
      by (simp add: test_IDENTIFIER_REGEX test_UNSAFE_REGEX unrepresentable_def)
  next
    case False
    have ne: "segmentText True p \<noteq> []" by (rule segmentText_not_Nil)
    have step: "formatPathLoop [] (p # ps) = formatPathLoop (segmentText True p) ps"
      using False
      by (auto simp add: test_IDENTIFIER_REGEX test_UNSAFE_REGEX unrepresentable_def segmentText_simps)
    show ?thesis
      unfolding Cons formatPathAsString_def step formatPathLoop_nonempty [OF ne]
      using False by (simp split: option.splits)
  qed
qed

theorem formatPathAsString_eq_witness:
  "formatPathAsString
     [js ''audits'', js ''first-cpu-idle'', js ''details'', js ''items'', js ''0'']
     = Inr (js ''audits[first-cpu-idle].details.items[0]'') \<and>
   formatPathAsString [js ''audits'', js ''a b''] = Inl (CannotHandle (js ''a b''))"
  by (simp add: formatPathAsString_eq unrepresentable_def isIdentifier_def hasUnsafeChar_def
      segmentText_def isLetter_def isUnsafeChar_def isWhiteSpace_def isLineTerminator_def)

theorem formatPathAsString_empty_segment_counterexample:
  "formatPathAsString [js ''a'', [], js ''b''] = Inr (js ''a[].b'') \<and>
   claimedPath [js ''a'', [], js ''b''] = js ''a..b''"
  by (simp add: formatPathAsString_def test_IDENTIFIER_REGEX test_UNSAFE_REGEX isIdentifier_def
      hasUnsafeChar_def isLetter_def claimedSegmentText_def)

section \<open>The registry\<close>

lemma findIndex_Some:
  "findIndex P xs = Some i \<Longrightarrow> i < length xs \<and> P (xs ! i) \<and> (\<forall>j<i. \<not> P (xs ! j))"
proof (induction xs arbitrary: i)
  case Nil
  then show ?case by simp
next
  case (Cons x xs)
  show ?case
  proof (cases "P x")
    case True
    with Cons.prems show ?thesis by simp
  next
    case False
    with Cons.prems obtain k where k: "findIndex P xs = Some k" "i = Suc k" by auto
    from Cons.IH [OF k(1)] False k(2) show ?thesis by (auto simp: less_Suc_eq_0_disj)
  qed
qed

lemma findIndex_None: "findIndex P xs = None \<longleftrightarrow> (\<forall>x\<in>set xs. \<not> P x)"
  by (induction xs) auto

lemma findIndex_cong: "(\<And>x. x \<in> set xs \<Longrightarrow> P x = Q x) \<Longrightarrow> findIndex P xs = findIndex Q xs"
  by (induction xs) auto

lemma findIndex_append_new:
  "findIndex P xs = None \<Longrightarrow> P y \<Longrightarrow> findIndex P (xs @ [y]) = Some (length xs)"
  by (induction xs) (auto split: if_splits)

lemma instancesOf_upd: "instancesOf (m(k \<mapsto> l)) k' = (if k' = k then l else instancesOf m k')"
  by (simp add: instancesOf_def)

lemma placeInstance_cases:
  assumes "placeInstance eq k msg v m = (i, m')"
  shows "(findIndex (\<lambda>inst. eq (inst_values inst) v) (instancesOf m k) = Some i \<and>
            m' = m(k \<mapsto> instancesOf m k)) \<or>
         (findIndex (\<lambda>inst. eq (inst_values inst) v) (instancesOf m k) = None \<and>
            i = length (instancesOf m k) \<and>
            m' = m(k \<mapsto> instancesOf m k @
                   [\<lparr>inst_icuMessageId = k, inst_icuMessage = msg, inst_values = v\<rparr>]))"
  using assms by (auto simp: placeInstance_def Let_def split: option.splits)

lemma placeInstance_prefix:
  assumes "placeInstance eq k msg v m = (i, m')"
  shows "prefix (instancesOf m k') (instancesOf m' k')"
  using placeInstance_cases [OF assms] by (auto simp: instancesOf_upd)

lemma placeInstance_index:
  assumes "placeInstance eq k msg v m = (i, m')"
  shows "i < length (instancesOf m' k)"
  using placeInstance_cases [OF assms] by (auto simp: instancesOf_upd dest: findIndex_Some)

lemma placeInstance_fresh:
  assumes "placeInstance eq k msg v m = (i, m')"
    and "\<forall>inst\<in>set (instancesOf m k). \<not> eq (inst_values inst) v"
  shows "i = length (instancesOf m k)"
proof -
  have "findIndex (\<lambda>inst. eq (inst_values inst) v) (instancesOf m k) = None"
    using assms(2) by (simp add: findIndex_None)
  with placeInstance_cases [OF assms(1)] show ?thesis by simp
qed

lemma placeInstance_again:
  assumes sym: "symp eq" and trans: "transp eq"
    and first: "placeInstance eq k msg v1 m = (i, m1)" and eq: "eq v1 v2"
  shows "placeInstance eq k msg v2 m1 = (i, m1)"
proof -
  have same: "eq x v1 \<longleftrightarrow> eq x v2" for x
    using sym trans eq by (meson sympD transpD)
  let ?l = "instancesOf m k"
  from placeInstance_cases [OF first] show ?thesis
  proof (elim disjE conjE)
    assume f: "findIndex (\<lambda>inst. eq (inst_values inst) v1) ?l = Some i" and m1: "m1 = m(k \<mapsto> ?l)"
    have l1: "instancesOf m1 k = ?l" by (simp add: m1 instancesOf_upd)
    have "findIndex (\<lambda>inst. eq (inst_values inst) v2) ?l = Some i"
      using f by (simp add: same)
    then show ?thesis by (simp add: placeInstance_def l1) (simp add: m1)
  next
    let ?new = "\<lparr>inst_icuMessageId = k, inst_icuMessage = msg, inst_values = v1\<rparr>"
    assume f: "findIndex (\<lambda>inst. eq (inst_values inst) v1) ?l = None" and i: "i = length ?l"
      and m1: "m1 = m(k \<mapsto> ?l @ [?new])"
    have l1: "instancesOf m1 k = ?l @ [?new]" by (simp add: m1 instancesOf_upd)
    have "eq v1 v1" using sym trans eq by (meson sympD transpD)
    then have "eq (inst_values ?new) v2" using eq by simp
    moreover have "findIndex (\<lambda>inst. eq (inst_values inst) v2) ?l = None"
      using f by (simp add: same)
    ultimately have "findIndex (\<lambda>inst. eq (inst_values inst) v2) (?l @ [?new]) = Some (length ?l)"
      by (intro findIndex_append_new) 
    then show ?thesis by (simp add: placeInstance_def l1 i) (simp add: m1)
  qed
qed

lemma issued_index_bound:
  "issued E eq m hist \<Longrightarrow> (k, j) \<in> set hist \<Longrightarrow> j < length (instancesOf m k)"
proof (induction arbitrary: k j rule: issued.induct)
  case issued_empty
  then show ?case by simp
next
  case (issued_call m hist filename fileStrings icuMessage vals icuMessageId indexOfInstance m')
  from issued_call.hyps(2) have p: "placeInstance eq icuMessageId icuMessage vals m = (indexOfInstance, m')"
    by (auto simp: locateMessageInstance_def split: sum.splits)
  show ?case
  proof (cases "(k, j) = (icuMessageId, indexOfInstance)")
    case True
    with placeInstance_index [OF p] show ?thesis by simp
  next
    case False
    with issued_call.prems have "(k, j) \<in> set hist" by auto
    from issued_call.IH [OF this] have "j < length (instancesOf m k)" .
    moreover have "length (instancesOf m k) \<le> length (instancesOf m' k)"
      using placeInstance_prefix [OF p, of k] by (rule prefix_length_le)
    ultimately show ?thesis by simp
  qed
qed

lemma distinctValues_snoc:
  assumes "distinctValues eq l" and "\<forall>inst\<in>set l. \<not> eq (inst_values inst) (inst_values y)"
  shows "distinctValues eq (l @ [y])"
  unfolding distinctValues_def
proof (intro allI impI)
  fix i j assume ij: "i < j" "j < length (l @ [y])"
  show "\<not> eq (inst_values ((l @ [y]) ! i)) (inst_values ((l @ [y]) ! j))"
  proof (cases "j < length l")
    case True
    with ij assms(1) show ?thesis by (simp add: distinctValues_def nth_append)
  next
    case False
    with ij have j: "j = length l" and i: "i < length l" by simp_all
    from i have "l ! i \<in> set l" by simp
    with assms(2) show ?thesis by (simp add: j nth_append i)
  qed
qed

lemma issued_distinct:
  "issued E eq m hist \<Longrightarrow> distinctValues eq (instancesOf m k)"
proof (induction arbitrary: k rule: issued.induct)
  case issued_empty
  then show ?case by (simp add: distinctValues_def instancesOf_def)
next
  case (issued_call m hist filename fileStrings icuMessage vals icuMessageId indexOfInstance m')
  from issued_call.hyps(2) have p: "placeInstance eq icuMessageId icuMessage vals m = (indexOfInstance, m')"
    by (auto simp: locateMessageInstance_def split: sum.splits)
  from placeInstance_cases [OF p] show ?case
  proof (elim disjE conjE)
    assume "m' = m(icuMessageId \<mapsto> instancesOf m icuMessageId)"
    then have "instancesOf m' k = (if k = icuMessageId then instancesOf m icuMessageId
         else instancesOf m k)"
      by (simp only: instancesOf_upd)
    then have "instancesOf m' k = instancesOf m k" by (cases "k = icuMessageId") simp_all
    then show ?thesis using issued_call.IH [of k] by simp
  next
    assume n: "findIndex (\<lambda>inst. eq (inst_values inst) vals) (instancesOf m icuMessageId) = None"
      and m': "m' = m(icuMessageId \<mapsto> instancesOf m icuMessageId @
           [\<lparr>inst_icuMessageId = icuMessageId, inst_icuMessage = icuMessage, inst_values = vals\<rparr>])"
    have "distinctValues eq (instancesOf m icuMessageId @
           [\<lparr>inst_icuMessageId = icuMessageId, inst_icuMessage = icuMessage, inst_values = vals\<rparr>])"
      using issued_call.IH [of icuMessageId] n
      by (intro distinctValues_snoc) (simp_all add: findIndex_None)
    moreover have "instancesOf m' k = (if k = icuMessageId then instancesOf m icuMessageId @
           [\<lparr>inst_icuMessageId = icuMessageId, inst_icuMessage = icuMessage, inst_values = vals\<rparr>]
           else instancesOf m k)"
      unfolding m' by (rule instancesOf_upd)
    ultimately show ?thesis using issued_call.IH [of k] by simp
  qed
qed

lemma getMessageInstanceIdFn_Inr:
  "getMessageInstanceIdFn E eq filename fileStrings icuMessage v m = Inr (tok, m') \<longleftrightarrow>
   (\<exists>k i. icuMessageIdFor E filename fileStrings icuMessage = Inr k \<and>
          placeInstance eq k icuMessage v m = (i, m') \<and> tok = k @ js '' # '' @ toString i)"
  by (auto simp: getMessageInstanceIdFn_def locateMessageInstance_def split: sum.splits prod.splits)

lemma locateMessageInstance_Inr:
  "locateMessageInstance E eq filename fileStrings icuMessage v m = Inr (k, i, m') \<longleftrightarrow>
   icuMessageIdFor E filename fileStrings icuMessage = Inr k \<and>
   placeInstance eq k icuMessage v m = (i, m')"
  by (auto simp: locateMessageInstance_def split: sum.splits)

lemma later_prefix:
  "later E eq m m' \<Longrightarrow> prefix (instancesOf m k) (instancesOf m' k)"
proof (induction rule: later.induct)
  case (later_same m)
  show ?case by simp
next
  case (later_call m m1 filename fileStrings icuMessage vals icuMessageId indexOfInstance m2)
  from later_call.hyps(2) have "placeInstance eq icuMessageId icuMessage vals m1 = (indexOfInstance, m2)"
    unfolding locateMessageInstance_Inr by simp
  from placeInstance_prefix [OF this, of k] later_call.IH show ?case
    by (rule prefix_order.trans [rotated])
qed

lemma later_issued:
  "later E eq m m' \<Longrightarrow> issued E eq m hist \<Longrightarrow> \<exists>hist'. issued E eq m' hist'"
proof (induction rule: later.induct)
  case (later_same m)
  then show ?case by blast
next
  case (later_call m m1 filename fileStrings icuMessage vals icuMessageId indexOfInstance m2)
  from later_call.IH [OF later_call.prems] obtain h where "issued E eq m1 h" by blast
  from issued_call [OF this later_call.hyps(2)] show ?case by blast
qed

lemma findIndex_at_most:
  "n < length xs \<Longrightarrow> P (xs ! n) \<Longrightarrow> \<exists>j\<le>n. findIndex P xs = Some j"
proof (induction xs arbitrary: n)
  case Nil
  then show ?case by simp
next
  case (Cons x xs)
  show ?case
  proof (cases "P x")
    case True
    then show ?thesis by simp
  next
    case False
    with Cons.prems obtain n' where n': "n = Suc n'" by (cases n) auto
    with Cons.prems have "n' < length xs" "P (xs ! n')" by simp_all
    from Cons.IH [OF this] obtain j where "j \<le> n'" "findIndex P xs = Some j" by blast
    with False n' show ?thesis by simp
  qed
qed

lemma placeInstance_entry:
  assumes "placeInstance eq k msg v m = (i, m')"
  shows "i < length (instancesOf m' k) \<and>
         (eq (inst_values (instancesOf m' k ! i)) v \<or> inst_values (instancesOf m' k ! i) = v)"
  using placeInstance_cases [OF assms]
  by (auto simp: instancesOf_upd nth_append dest: findIndex_Some)

lemma token_stable:
  assumes sym: "symp eq" and trans: "transp eq"
    and reach: "issued E eq m hist"
    and first: "getMessageInstanceIdFn E eq filename fileStrings icuMessage v1 m = Inr (tok, m1)"
    and after: "later E eq m1 m2" and eq: "eq v1 v2"
  shows "getMessageInstanceIdFn E eq filename fileStrings icuMessage v2 m2 = Inr (tok, m2)"
proof -
  from first obtain k n where k: "icuMessageIdFor E filename fileStrings icuMessage = Inr k"
    and p: "placeInstance eq k icuMessage v1 m = (n, m1)"
    and tok: "tok = k @ js '' # '' @ toString n"
    unfolding getMessageInstanceIdFn_Inr by blast
  let ?l1 = "instancesOf m1 k" and ?l2 = "instancesOf m2 k"
  let ?P = "\<lambda>inst. eq (inst_values inst) v2"
  from placeInstance_entry [OF p] have n1: "n < length ?l1"
    and e1: "eq (inst_values (?l1 ! n)) v1 \<or> inst_values (?l1 ! n) = v1" by simp_all
  from e1 eq trans have e2: "eq (inst_values (?l1 ! n)) v2" by (auto dest: transpD)
  have pre: "prefix ?l1 ?l2" by (rule later_prefix [OF after])
  then obtain zs where l2: "?l2 = ?l1 @ zs" by (auto simp: prefix_def)
  have n2: "n < length ?l2" using n1 l2 by simp
  have same: "?l2 ! n = ?l1 ! n" using n1 l2 by (simp add: nth_append)
  have Pn: "?P (?l2 ! n)" using e2 same by simp
  from findIndex_at_most [OF n2, of ?P, OF Pn] obtain j where j: "j \<le> n" "findIndex ?P ?l2 = Some j"
    by blast
  have "locateMessageInstance E eq filename fileStrings icuMessage v1 m = Inr (k, n, m1)"
    unfolding locateMessageInstance_Inr using k p by simp
  from issued_call [OF reach this] have "issued E eq m1 ((k, n) # hist)" .
  from later_issued [OF after this] obtain h where "issued E eq m2 h" by blast
  then have d: "distinctValues eq ?l2" by (rule issued_distinct)
  have "j = n"
  proof (rule ccontr)
    assume "j \<noteq> n"
    with j(1) have lt: "j < n" by simp
    from findIndex_Some [OF j(2)] have "eq (inst_values (?l2 ! j)) v2" by simp
    moreover from Pn sym have "eq v2 (inst_values (?l2 ! n))" by (auto dest: sympD)
    ultimately have "eq (inst_values (?l2 ! j)) (inst_values (?l2 ! n))"
      using trans by (auto dest: transpD)
    with d lt n2 show False by (simp add: distinctValues_def)
  qed
  with j(2) have f: "findIndex ?P ?l2 = Some n" by simp
  have "m2 k = Some ?l2" using n2 by (cases "m2 k") (simp_all add: instancesOf_def)
  then have "m2(k \<mapsto> ?l2) = m2" by (rule fun_upd_idem)
  with f have "placeInstance eq k icuMessage v2 m2 = (n, m2)" by (simp add: placeInstance_def)
  with k tok show ?thesis unfolding getMessageInstanceIdFn_Inr by blast
qed

text \<open>
  Claim C1: registering the same message with deeply equal values twice returns the same
  token both times, whether the second call follows the first at once (it then leaves the
  map as it is) or comes after any further calls; registering a message with values that are
  deeply equal to none of those registered for its key returns the token whose index is the
  length that the sequence of the key had, which is above every index issued for that key
  since the map was empty. Deep equality is taken to be symmetric and transitive.
\<close>

theorem register_same_or_fresh:
  assumes "symp isDeepEqual" and "transp isDeepEqual"
  shows
    "(getMessageInstanceIdFn E isDeepEqual filename fileStrings icuMessage v1 m = Inr (tok, m1) \<longrightarrow>
      isDeepEqual v1 v2 \<longrightarrow>
      getMessageInstanceIdFn E isDeepEqual filename fileStrings icuMessage v2 m1 = Inr (tok, m1)) \<and>
     (issued E isDeepEqual m hist \<longrightarrow>
      getMessageInstanceIdFn E isDeepEqual filename fileStrings icuMessage v1 m = Inr (tok, m1) \<longrightarrow>
      later E isDeepEqual m1 m2 \<longrightarrow> isDeepEqual v1 v2 \<longrightarrow>
      getMessageInstanceIdFn E isDeepEqual filename fileStrings icuMessage v2 m2 = Inr (tok, m2)) \<and>
     (issued E isDeepEqual m hist \<longrightarrow>
      locateMessageInstance E isDeepEqual filename fileStrings icuMessage v m = Inr (key, i, m') \<longrightarrow>
      (\<forall>inst\<in>set (instancesOf m key). \<not> isDeepEqual (inst_values inst) v) \<longrightarrow>
      getMessageInstanceIdFn E isDeepEqual filename fileStrings icuMessage v m
        = Inr (key @ js '' # '' @ toString i, m') \<and>
      i = length (instancesOf m key) \<and>
      (\<forall>j. (key, j) \<in> set hist \<longrightarrow> j < i))"
proof (intro conjI impI)
  assume first: "getMessageInstanceIdFn E isDeepEqual filename fileStrings icuMessage v1 m = Inr (tok, m1)"
    and eq: "isDeepEqual v1 v2"
  from first obtain k n where k: "icuMessageIdFor E filename fileStrings icuMessage = Inr k"
    and p: "placeInstance isDeepEqual k icuMessage v1 m = (n, m1)"
    and tok: "tok = k @ js '' # '' @ toString n"
    unfolding getMessageInstanceIdFn_Inr by blast
  from placeInstance_again [OF assms p eq]
  have "placeInstance isDeepEqual k icuMessage v2 m1 = (n, m1)" .
  with k tok show "getMessageInstanceIdFn E isDeepEqual filename fileStrings icuMessage v2 m1 = Inr (tok, m1)"
    unfolding getMessageInstanceIdFn_Inr by blast
next
  assume "issued E isDeepEqual m hist"
    and "getMessageInstanceIdFn E isDeepEqual filename fileStrings icuMessage v1 m = Inr (tok, m1)"
    and "later E isDeepEqual m1 m2" and "isDeepEqual v1 v2"
  then show "getMessageInstanceIdFn E isDeepEqual filename fileStrings icuMessage v2 m2 = Inr (tok, m2)"
    by (rule token_stable [OF assms])
next
  assume reach: "issued E isDeepEqual m hist"
    and loc: "locateMessageInstance E isDeepEqual filename fileStrings icuMessage v m = Inr (key, i, m')"
    and fresh: "\<forall>inst\<in>set (instancesOf m key). \<not> isDeepEqual (inst_values inst) v"
  from loc have k: "icuMessageIdFor E filename fileStrings icuMessage = Inr key"
    and p: "placeInstance isDeepEqual key icuMessage v m = (i, m')"
    unfolding locateMessageInstance_Inr by simp_all
  from k p show "getMessageInstanceIdFn E isDeepEqual filename fileStrings icuMessage v m
        = Inr (key @ js '' # '' @ toString i, m')"
    unfolding getMessageInstanceIdFn_Inr by blast
  show i: "i = length (instancesOf m key)" by (rule placeInstance_fresh [OF p fresh])
  show "\<forall>j. (key, j) \<in> set hist \<longrightarrow> j < i"
    using issued_index_bound [OF reach] i by blast
qed

lemma sample_icuMessageId:
  "icuMessageIdFor sampleEnv sampleFile sampleStrings msTemplate = Inr sampleId"
  by (simp add: icuMessageIdFor_def spread_def UIStrings_def js_in_def Object_prototype_keys_def
      sampleEnv_def unixStyle_def sampleId_def msTemplate_def sampleStrings_def sampleFile_def)

lemma sample_first_call:
  "locateMessageInstance sampleEnv (=) sampleFile sampleStrings msTemplate
     (Some [(js ''timeInMs'', 63)]) Map.empty = Inr (sampleId, 0, sampleMap1)"
  by (simp add: locateMessageInstance_def sample_icuMessageId placeInstance_def instancesOf_def
      sampleMap1_def sampleInstance_def)

lemma sample_second_call:
  "locateMessageInstance sampleEnv (=) sampleFile sampleStrings msTemplate
     (Some [(js ''timeInMs'', 1200)]) sampleMap1 = Inr (sampleId, 1, sampleMap2)"
  by (simp add: locateMessageInstance_def sample_icuMessageId placeInstance_def instancesOf_def
      sampleMap1_def sampleMap2_def sampleInstance_def)

lemma sample_issued: "issued sampleEnv (=) sampleMap1 [(sampleId, 0)]"
  by (rule issued_call [OF issued_empty sample_first_call])

theorem register_same_or_fresh_witness:
  "getMessageInstanceIdFn sampleEnv (=) sampleFile sampleStrings msTemplate
     (Some [(js ''timeInMs'', 63)]) Map.empty = Inr (sampleId @ js '' # 0'', sampleMap1) \<and>
   getMessageInstanceIdFn sampleEnv (=) sampleFile sampleStrings msTemplate
     (Some [(js ''timeInMs'', 63)]) sampleMap1 = Inr (sampleId @ js '' # 0'', sampleMap1) \<and>
   getMessageInstanceIdFn sampleEnv (=) sampleFile sampleStrings msTemplate
     (Some [(js ''timeInMs'', 1200)]) sampleMap1 = Inr (sampleId @ js '' # 1'', sampleMap2) \<and>
   getMessageInstanceIdFn sampleEnv (=) sampleFile sampleStrings msTemplate
     (Some [(js ''timeInMs'', 63)]) sampleMap2 = Inr (sampleId @ js '' # 0'', sampleMap2) \<and>
   length (instancesOf sampleMap1 sampleId) = 1"
proof -
  have s: "symp ((=) :: rat jsobject option \<Rightarrow> _)" and t: "transp ((=) :: rat jsobject option \<Rightarrow> _)"
    by (simp_all add: symp_def transp_def)
  have a: "getMessageInstanceIdFn sampleEnv (=) sampleFile sampleStrings msTemplate
     (Some [(js ''timeInMs'', 63)]) Map.empty = Inr (sampleId @ js '' # 0'', sampleMap1)"
    unfolding getMessageInstanceIdFn_def sample_first_call by (simp add: toString.simps)
  have fresh: "\<forall>inst\<in>set (instancesOf sampleMap1 sampleId).
      \<not> inst_values inst = Some [(js ''timeInMs'', 1200)]"
    by (simp add: instancesOf_def sampleMap1_def sampleInstance_def)
  have l: "later sampleEnv (=) sampleMap1 sampleMap2"
    by (rule later_call [OF later_same sample_second_call])
  note all3 = register_same_or_fresh [OF s t]
  from all3 [THEN conjunct1, rule_format, OF a refl]
  have b: "getMessageInstanceIdFn sampleEnv (=) sampleFile sampleStrings msTemplate
     (Some [(js ''timeInMs'', 63)]) sampleMap1 = Inr (sampleId @ js '' # 0'', sampleMap1)" .
  from all3 [THEN conjunct2, THEN conjunct1, rule_format, OF issued_empty a l refl]
  have e: "getMessageInstanceIdFn sampleEnv (=) sampleFile sampleStrings msTemplate
     (Some [(js ''timeInMs'', 63)]) sampleMap2 = Inr (sampleId @ js '' # 0'', sampleMap2)" .
  from all3 [THEN conjunct2, THEN conjunct2, rule_format, OF sample_issued sample_second_call] fresh
  have c: "getMessageInstanceIdFn sampleEnv (=) sampleFile sampleStrings msTemplate
     (Some [(js ''timeInMs'', 1200)]) sampleMap1 = Inr (sampleId @ js '' # '' @ toString 1, sampleMap2)"
    and d: "1 = length (instancesOf sampleMap1 sampleId)"
    by blast+
  have c': "getMessageInstanceIdFn sampleEnv (=) sampleFile sampleStrings msTemplate
     (Some [(js ''timeInMs'', 1200)]) sampleMap1 = Inr (sampleId @ js '' # 1'', sampleMap2)"
    using c by (simp add: toString.simps)
  from a b c' e d [symmetric] show ?thesis by (intro conjI)
qed

text \<open>
  Claim C2: in every map that calls of the registering functions build from the empty map,
  no two entries of the sequence of a key are deeply equal in their values, and a call only
  appends: the sequence of every key before the call is a prefix of its sequence after the
  call, and of its sequence after any number of further calls. Deep equality is taken to be
  symmetric.
\<close>

theorem registry_append_only:
  assumes "symp isDeepEqual" and "issued E isDeepEqual m hist"
  shows
    "(\<forall>k i j. i < length (instancesOf m k) \<longrightarrow> j < length (instancesOf m k) \<longrightarrow> i \<noteq> j \<longrightarrow>
        \<not> isDeepEqual (inst_values (instancesOf m k ! i)) (inst_values (instancesOf m k ! j))) \<and>
     (getMessageInstanceIdFn E isDeepEqual filename fileStrings icuMessage v m = Inr (tok, m') \<longrightarrow>
        (\<forall>k. prefix (instancesOf m k) (instancesOf m' k))) \<and>
     (later E isDeepEqual m m2 \<longrightarrow> (\<forall>k. prefix (instancesOf m k) (instancesOf m2 k)))"
proof (intro conjI allI impI)
  fix k i j
  assume b: "i < length (instancesOf m k)" "j < length (instancesOf m k)" and ne: "i \<noteq> j"
  have d: "distinctValues isDeepEqual (instancesOf m k)" by (rule issued_distinct [OF assms(2)])
  show "\<not> isDeepEqual (inst_values (instancesOf m k ! i)) (inst_values (instancesOf m k ! j))"
  proof (cases "i < j")
    case True
    with d b show ?thesis by (simp add: distinctValues_def)
  next
    case False
    with ne have "j < i" by simp
    with d b have "\<not> isDeepEqual (inst_values (instancesOf m k ! j)) (inst_values (instancesOf m k ! i))"
      by (simp add: distinctValues_def)
    with assms(1) show ?thesis by (meson sympD)
  qed
next
  fix k
  assume "getMessageInstanceIdFn E isDeepEqual filename fileStrings icuMessage v m = Inr (tok, m')"
  then obtain key n where "placeInstance isDeepEqual key icuMessage v m = (n, m')"
    unfolding getMessageInstanceIdFn_Inr by blast
  then show "prefix (instancesOf m k) (instancesOf m' k)" by (rule placeInstance_prefix)
next
  fix k
  assume "later E isDeepEqual m m2"
  then show "prefix (instancesOf m k) (instancesOf m2 k)" by (rule later_prefix)
qed

theorem registry_append_only_witness:
  "prefix (instancesOf sampleMap1 sampleId) (instancesOf sampleMap2 sampleId) \<and>
   instancesOf sampleMap2 sampleId =
     [sampleInstance (Some [(js ''timeInMs'', 63)]), sampleInstance (Some [(js ''timeInMs'', 1200)])] \<and>
   \<not> inst_values (instancesOf sampleMap2 sampleId ! 0) = inst_values (instancesOf sampleMap2 sampleId ! 1)"
proof -
  have s: "symp ((=) :: rat jsobject option \<Rightarrow> _)" by (simp add: symp_def)
  have call: "getMessageInstanceIdFn sampleEnv (=) sampleFile sampleStrings msTemplate
     (Some [(js ''timeInMs'', 1200)]) sampleMap1 = Inr (sampleId @ js '' # 1'', sampleMap2)"
    unfolding getMessageInstanceIdFn_def sample_second_call by (simp add: toString.simps)
  have two: "issued sampleEnv (=) sampleMap2 [(sampleId, 1), (sampleId, 0)]"
    by (rule issued_call [OF sample_issued sample_second_call])
  have l: "instancesOf sampleMap2 sampleId =
     [sampleInstance (Some [(js ''timeInMs'', 63)]), sampleInstance (Some [(js ''timeInMs'', 1200)])]"
    by (simp add: instancesOf_def sampleMap2_def)
  from registry_append_only [OF s sample_issued, THEN conjunct2, THEN conjunct1, rule_format, OF call]
  have p: "prefix (instancesOf sampleMap1 sampleId) (instancesOf sampleMap2 sampleId)" .
  from registry_append_only [OF s two, THEN conjunct1, rule_format, of 0 sampleId 1]
  have "\<not> inst_values (instancesOf sampleMap2 sampleId ! 0) = inst_values (instancesOf sampleMap2 sampleId ! 1)"
    by (simp add: l)
  with p l show ?thesis by simp
qed

section \<open>Locale lookup\<close>

lemma split_not_Nil: "split sep s \<noteq> []"
  by (induction s) (auto split: list.splits)

lemma join_Cons_Cons: "join sep ((c # w) # ws) = c # join sep (w # ws)"
  by (cases ws) simp_all

lemma join_Nil_Cons: "join sep ([] # ws) = (if ws = [] then [] else sep # join sep ws)"
  by (cases ws) simp_all

lemma join_split: "join sep (split sep s) = s"
proof (induction s)
  case Nil
  show ?case by simp
next
  case (Cons c s)
  obtain w ws where sp: "split sep s = w # ws" using split_not_Nil [of sep s] by (cases "split sep s") auto
  show ?case using Cons sp by (simp add: join_Cons_Cons join_Nil_Cons)
qed

lemma join_take_split_prefix: "prefix (join sep (take k (split sep s))) s"
proof (induction s arbitrary: k)
  case Nil
  show ?case by (cases k) simp_all
next
  case (Cons c s)
  obtain w ws where sp: "split sep s = w # ws" using split_not_Nil [of sep s] by (cases "split sep s") auto
  show ?case
  proof (cases k)
    case 0
    then show ?thesis by simp
  next
    case (Suc n)
    show ?thesis
    proof (cases "c = sep")
      case True
      with Cons [of n] Suc show ?thesis by (simp add: join_Nil_Cons)
    next
      case False
      have "join sep (take (Suc n) (split sep (c # s))) = c # join sep (take (Suc n) (split sep s))"
        using False sp by (simp add: join_Cons_Cons)
      with Cons [of "Suc n"] Suc show ?thesis by simp
    qed
  qed
qed

lemma closestCandidate_eq:
  "closestCandidate available current =
     find available (map (\<lambda>k. join 45 (take k current)) (rev [1 ..< Suc (length current)]))"
proof (induction available current rule: closestCandidate.induct)
  case (1 available current)
  show ?case
  proof (cases "current = []")
    case True
    then show ?thesis by (subst closestCandidate.simps) simp
  next
    case False
    then obtain n where n: "length current = Suc n" by (cases current) auto
    have bl: "length (butlast current) = n" using n by simp
    have tk: "take k (butlast current) = take k current" if "k \<le> n" for k
      using that n by (simp add: take_butlast)
    have m: "map (\<lambda>k. join 45 (take k (butlast current))) (rev [1 ..< Suc n])
        = map (\<lambda>k. join 45 (take k current)) (rev [1 ..< Suc n])"
      by (rule map_cong) (auto simp: tk)
    have l: "rev [1 ..< Suc (length current)] = Suc n # rev [1 ..< Suc n]"
      unfolding n by (simp del: upt_Suc add: upt_Suc_append)
    have f: "take (Suc n) current = current" using n by simp
    show ?thesis
    proof (cases "available (join 45 current)")
      case True
      with False show ?thesis unfolding l by (subst closestCandidate.simps) (simp add: f)
    next
      case na: False
      have "closestCandidate available (butlast current) =
          find available (map (\<lambda>k. join 45 (take k current)) (rev [1 ..< Suc n]))"
        unfolding 1 [OF False na] bl m ..
      with False na show ?thesis unfolding l by (subst closestCandidate.simps) (simp add: f)
    qed
  qed
qed

lemma tagPrefixes_hd: "tagPrefixes tag \<noteq> [] \<and> hd (tagPrefixes tag) = tag"
proof -
  obtain n where n: "length (split 45 tag) = Suc n"
    using split_not_Nil [of 45 tag] by (cases "split 45 tag") auto
  show ?thesis unfolding tagPrefixes_def n
    using join_split [of 45 tag] n by (simp del: upt_Suc add: upt_Suc_append)
qed

lemma tagPrefixes_prefix: "t \<in> set (tagPrefixes tag) \<Longrightarrow> prefix t tag"
  unfolding tagPrefixes_def using join_take_split_prefix by auto

lemma lookupClosestLocale_eq:
  "(case lookupClosestLocale (Some tag) available of None \<Rightarrow> js ''en'' | Some l \<Rightarrow> if l = [] then js ''en'' else l)
   = (case find available (tagPrefixes tag) of None \<Rightarrow> js ''en'' | Some l \<Rightarrow> if l = [] then js ''en'' else l)"
proof (cases "available tag")
  case True
  obtain ps where ps: "tagPrefixes tag = tag # ps"
    using tagPrefixes_hd [of tag] by (cases "tagPrefixes tag") auto
  show ?thesis using True by (simp add: lookupClosestLocale_def ps)
next
  case False
  show ?thesis
  proof (cases "tag = []")
    case True
    have "tagPrefixes [] = [[]]" by (simp add: tagPrefixes_def)
    with True False show ?thesis by (simp add: lookupClosestLocale_def)
  next
    case ne: False
    with False show ?thesis
      by (simp add: lookupClosestLocale_def closestCandidate_eq tagPrefixes_def)
  qed
qed

text \<open>
  Claim C6, as the code has it: for every requested tag that
  \<^verbatim>\<open>Intl.getCanonicalLocales\<close> accepts, an absent one included, \<open>lookupLocale\<close> returns
  a locale: the first supported one among the canonical tag and its progressively shorter
  prefixes (the canonical tag itself comes first), and \<^verbatim>\<open>en\<close> when none is supported or
  the tag is absent.
\<close>

theorem lookupLocale_eq:
  assumes "Intl_getCanonicalLocales E locale = Inr canonicalLocales"
  shows "lookupLocale E locale =
           Inr (case canonicalLocales of
                  [] \<Rightarrow> js ''en''
                | tag # _ \<Rightarrow>
                    (case find (\<lambda>t. LOCALES E t \<noteq> None) (tagPrefixes tag) of
                       None \<Rightarrow> js ''en''
                     | Some l \<Rightarrow> if l = [] then js ''en'' else l)) \<and>
         (\<forall>tag rest. canonicalLocales = tag # rest \<longrightarrow>
            hd (tagPrefixes tag) = tag \<and> (\<forall>t\<in>set (tagPrefixes tag). prefix t tag))"
proof
  show "lookupLocale E locale =
           Inr (case canonicalLocales of
                  [] \<Rightarrow> js ''en''
                | tag # _ \<Rightarrow>
                    (case find (\<lambda>t. LOCALES E t \<noteq> None) (tagPrefixes tag) of
                       None \<Rightarrow> js ''en''
                     | Some l \<Rightarrow> if l = [] then js ''en'' else l))"
  proof (cases canonicalLocales)
    case Nil
    with assms show ?thesis by (simp add: lookupLocale_def lookupClosestLocale_def)
  next
    case (Cons tag rest)
    with assms lookupClosestLocale_eq [of tag "\<lambda>c. LOCALES E c \<noteq> None"] show ?thesis
      by (simp add: lookupLocale_def)
  qed
  show "\<forall>tag rest. canonicalLocales = tag # rest \<longrightarrow>
          hd (tagPrefixes tag) = tag \<and> (\<forall>t\<in>set (tagPrefixes tag). prefix t tag)"
    using tagPrefixes_hd tagPrefixes_prefix by blast
qed

lemma sample_canonical:
  "Intl_getCanonicalLocales sampleEnv (Some (js ''de-CH-1996'')) = Inr [js ''de-CH-1996'']"
  "Intl_getCanonicalLocales sampleEnv (Some (js ''xx-ZZ'')) = Inr [js ''xx-ZZ'']"
  "Intl_getCanonicalLocales sampleEnv None = Inr []"
  by (simp_all add: Intl_getCanonicalLocales_def IsStructurallyValidLanguageTag_def isTagChar_def
      isLetter_def isDigit_def sampleEnv_def)

theorem lookupLocale_eq_witness:
  "lookupLocale sampleEnv (Some (js ''de-CH-1996'')) = Inr (js ''de-CH'') \<and>
   lookupLocale sampleEnv (Some (js ''xx-ZZ'')) = Inr (js ''en'') \<and>
   lookupLocale sampleEnv None = Inr (js ''en'') \<and>
   tagPrefixes (js ''de-CH-1996'') = [js ''de-CH-1996'', js ''de-CH'', js ''de'']"
proof -
  have p: "tagPrefixes (js ''de-CH-1996'') = [js ''de-CH-1996'', js ''de-CH'', js ''de'']"
    by (simp add: tagPrefixes_def)
  from lookupLocale_eq [OF sample_canonical(1), THEN conjunct1]
  have a: "lookupLocale sampleEnv (Some (js ''de-CH-1996'')) = Inr (js ''de-CH'')"
    by (simp add: tagPrefixes_def sampleEnv_def sampleLocales_def)
  from lookupLocale_eq [OF sample_canonical(2), THEN conjunct1]
  have b: "lookupLocale sampleEnv (Some (js ''xx-ZZ'')) = Inr (js ''en'')"
    by (simp add: tagPrefixes_def sampleEnv_def sampleLocales_def)
  from lookupLocale_eq [OF sample_canonical(3), THEN conjunct1]
  have c: "lookupLocale sampleEnv None = Inr (js ''en'')" by simp
  from a b c p show ?thesis by (intro conjI)
qed

theorem lookupLocale_RangeError_counterexample:
  "lookupLocale sampleEnv (Some (js ''en_US'')) = Inl RangeError"
  by (simp add: lookupLocale_def Intl_getCanonicalLocales_def IsStructurallyValidLanguageTag_def
      isTagChar_def isLetter_def isDigit_def)

lemma lookupLocale_invalid:
  "\<not> list_all isTagChar tag \<Longrightarrow> lookupLocale E (Some tag) = Inl RangeError"
  by (simp add: lookupLocale_def Intl_getCanonicalLocales_def IsStructurallyValidLanguageTag_def)

section \<open>Tokens without an instance\<close>

lemma resolve_missing_instance:
  assumes "regex_match MESSAGE_INSTANCE_ID_REGEX tok = Some [whole, key, d]"
    and "\<not> Number d < length (instancesOf m key)"
  shows "resolveIcuMessageInstanceId E m tok locale = Inl (TypeError (js ''icuMessage''))"
  using assms(2) unfolding resolve_of_match [OF assms(1)] by simp

text \<open>
  Claim C5 at two tokens: one whose key is not in the map, and one whose index is the
  length of the sequence of its key. In both cases the call ends in the \<^verbatim>\<open>TypeError\<close> of
  reading \<^verbatim>\<open>icuMessage\<close> from \<^verbatim>\<open>undefined\<close>, not in the error of an invalid instance
  id.
\<close>

theorem resolve_missing_instance_TypeError:
  "resolveIcuMessageInstanceId sampleEnv Map.empty
     (js ''lighthouse-core/audits/metrics.js | title # 0'') (js ''en'')
     = Inl (TypeError (js ''icuMessage'')) \<and>
   resolveIcuMessageInstanceId sampleEnv sampleMap1 (sampleId @ js '' # 1'') (js ''en'')
     = Inl (TypeError (js ''icuMessage''))"
proof
  have m: "regex_match MESSAGE_INSTANCE_ID_REGEX
             (js ''lighthouse-core/audits/metrics.js | title'' @ indexSeparator @ js ''0'')
           = Some [js ''lighthouse-core/audits/metrics.js | title'' @ indexSeparator @ js ''0'',
                   js ''lighthouse-core/audits/metrics.js | title'', js ''0'']"
    by (rule match_encoded [of _ "js ''lighthouse-core/audits/metrics.js''" "js ''title''"])
       (simp_all add: keySeparator_def isLineTerminator_def isDigit_def)
  have "resolveIcuMessageInstanceId sampleEnv Map.empty
     (js ''lighthouse-core/audits/metrics.js | title'' @ indexSeparator @ js ''0'') (js ''en'')
     = Inl (TypeError (js ''icuMessage''))"
    by (rule resolve_missing_instance [OF m]) (simp add: instancesOf_def)
  then show "resolveIcuMessageInstanceId sampleEnv Map.empty
     (js ''lighthouse-core/audits/metrics.js | title # 0'') (js ''en'')
     = Inl (TypeError (js ''icuMessage''))"
    by (simp add: indexSeparator_def)
  have m: "regex_match MESSAGE_INSTANCE_ID_REGEX (sampleId @ indexSeparator @ js ''1'')
           = Some [sampleId @ indexSeparator @ js ''1'', sampleId, js ''1'']"
    by (rule match_encoded [of _ "js ''lighthouse-core/lib/i18n/i18n.js''" "js ''ms''"])
       (simp_all add: sampleId_def keySeparator_def isLineTerminator_def isDigit_def)
  have "resolveIcuMessageInstanceId sampleEnv sampleMap1 (sampleId @ indexSeparator @ js ''1'') (js ''en'')
     = Inl (TypeError (js ''icuMessage''))"
    by (rule resolve_missing_instance [OF m])
       (simp add: instancesOf_def sampleMap1_def Number_def)
  then show "resolveIcuMessageInstanceId sampleEnv sampleMap1 (sampleId @ js '' # 1'') (js ''en'')
     = Inl (TypeError (js ''icuMessage''))"
    by (simp add: indexSeparator_def)
qed

lemma sample_resolve_registered:
  "resolveIcuMessageInstanceId sampleEnv sampleMap1 (sampleId @ js '' # 0'') (js ''en'')
     = Inr (sampleInstance (Some [(js ''timeInMs'', 63)]), msTemplate)"
proof -
  have m: "regex_match MESSAGE_INSTANCE_ID_REGEX (sampleId @ indexSeparator @ js ''0'')
           = Some [sampleId @ indexSeparator @ js ''0'', sampleId, js ''0'']"
    by (rule match_encoded [of _ "js ''lighthouse-core/lib/i18n/i18n.js''" "js ''ms''"])
       (simp_all add: sampleId_def keySeparator_def isLineTerminator_def isDigit_def)
  have i: "instancesOf sampleMap1 sampleId = [sampleInstance (Some [(js ''timeInMs'', 63)])]"
    by (simp add: instancesOf_def sampleMap1_def)
  have f: "formatIcuMessage sampleEnv (js ''en'') sampleId (Some msTemplate)
             (Some [(js ''timeInMs'', 63)]) = Inr (msTemplate, msTemplate)"
    by (simp add: formatIcuMessage_def sampleEnv_def sampleLocales_def msTemplate_def
        preprocessMessageValues_def sampleParse_def sampleMessages_def js_in_def JSON_clone_def
        Object_prototype_keys_def)
  have n: "Number (js ''0'') = 0" by (simp add: Number_def)
  have s: "inst_icuMessage (sampleInstance v) = msTemplate" "inst_values (sampleInstance v) = v" for v
    by (simp_all add: sampleInstance_def)
  have "resolveIcuMessageInstanceId sampleEnv sampleMap1 (sampleId @ indexSeparator @ js ''0'') (js ''en'')
     = Inr (sampleInstance (Some [(js ''timeInMs'', 63)]), msTemplate)"
    by (simp only: resolve_of_match [OF m] n i nth_Cons_0 s f list.size add_0 zero_less_Suc
        if_True sum.case prod.case)
  then show ?thesis by (simp add: indexSeparator_def)
qed

section \<open>Values that are not provided\<close>

lemma find_Some_ex: "x \<in> set xs \<Longrightarrow> P x \<Longrightarrow> \<exists>y. find P xs = Some y \<and> y \<in> set xs \<and> P y"
  by (induction xs) auto

lemma valueMissing_cases:
  "valueMissing vals el \<Longrightarrow> \<exists>j g. el = ArgumentElement j g \<and> j \<noteq> [] \<and> \<not> js_in j vals"
  by (cases el) simp_all

lemma preprocess_unfold:
  "parse E icuMessage = Inr elements \<Longrightarrow>
   find (valueMissing (case vals of None \<Rightarrow> [] | Some v \<Rightarrow> v))
     (filter isArgumentElement elements) = Some el \<Longrightarrow>
   preprocessMessageValues E icuMessage vals = Inl (ValueNotProvided (elementId el))"
  by (simp add: preprocessMessageValues_def)

lemma preprocess_missing_value:
  assumes "parse E icuMessage = Inr elements" and "ArgumentElement i f \<in> set elements"
    and "i \<noteq> []" and "\<not> js_in i (case vals of None \<Rightarrow> [] | Some v \<Rightarrow> v)"
  shows "\<exists>j g. ArgumentElement j g \<in> set elements \<and> j \<noteq> [] \<and>
           \<not> js_in j (case vals of None \<Rightarrow> [] | Some v \<Rightarrow> v) \<and>
           preprocessMessageValues E icuMessage vals = Inl (ValueNotProvided j)"
proof -
  let ?vs = "case vals of None \<Rightarrow> [] | Some v \<Rightarrow> v"
  have "ArgumentElement i f \<in> set (filter isArgumentElement elements)" using assms(2) by simp
  moreover have "valueMissing ?vs (ArgumentElement i f)" using assms(3,4) by simp
  ultimately have "\<exists>y. find (valueMissing ?vs) (filter isArgumentElement elements) = Some y \<and>
      y \<in> set (filter isArgumentElement elements) \<and> valueMissing ?vs y"
    by (rule find_Some_ex)
  then obtain el where el: "find (valueMissing ?vs) (filter isArgumentElement elements) = Some el"
    "el \<in> set (filter isArgumentElement elements)" "valueMissing ?vs el"
    by (elim exE conjE)
  from valueMissing_cases [OF el(3)] obtain j g where j: "el = ArgumentElement j g" "j \<noteq> []"
    "\<not> js_in j ?vs" by (elim exE conjE)
  have r: "preprocessMessageValues E icuMessage vals = Inl (ValueNotProvided j)"
    using preprocess_unfold [OF assms(1) el(1)] by (simp add: j(1))
  have "ArgumentElement j g \<in> set elements" using el(2) j(1) by simp
  with j(2,3) r show ?thesis by (intro exI conjI)
qed



lemma formatIcuMessage_missing_value:
  assumes "LOCALES E locale = Some catalog" and "catalog icuMessageId = Some m" and "m \<noteq> []"
    and "preprocessMessageValues E m vals = Inl e"
  shows "formatIcuMessage (E\<lparr>messageFormat := render\<rparr>) locale icuMessageId uiStringMessage vals = Inl e"
proof -
  have "preprocessMessageValues (E\<lparr>messageFormat := render\<rparr>) m vals = preprocessMessageValues E m vals"
    by (simp add: preprocessMessageValues_def)
  with assms show ?thesis by (simp add: formatIcuMessage_def)
qed

text \<open>
  Claim C7 at the message \<^verbatim>\<open>{constructor}\<close> with the empty values: \<^verbatim>\<open>constructor\<close>
  has no entry in the values, yet \<^verbatim>\<open>'constructor' in values\<close> holds, by inheritance from
  \<^verbatim>\<open>Object.prototype\<close>; no error of a missing value is raised, and the message goes to
  the formatter.
\<close>

theorem inherited_name_not_reported:
  "preprocessMessageValues sampleEnv (js ''{constructor}'') (Some []) = Inr [] \<and>
   formatIcuMessage sampleEnv (js ''en'') (js ''lighthouse-core/audits/metrics.js | title'')
     (Some (js ''{constructor}'')) (Some []) = Inr (js ''{constructor}'', js ''{constructor}'')"
  by (simp add: formatIcuMessage_def preprocessMessageValues_def sampleEnv_def sampleLocales_def
      sampleParse_def sampleMessages_def js_in_def Object_prototype_keys_def JSON_clone_def)

section \<open>Rewriting the values\<close>

text \<open>
  When every placeholder of a message occurs in one element only, and has an entry of its
  own in the values, each value is rewritten as the specification says, and the other
  entries are copied.
\<close>

lemma map_of_defineProperty:
  "map_of (defineProperty obj k v) k' = (if k' = k then Some v else map_of obj k')"
  by (induction obj) auto

lemma keys_defineProperty:
  "k \<in> set (map fst obj) \<Longrightarrow> map fst (defineProperty obj k v) = map fst obj"
  by (induction obj) force+

lemma assignProperty_own:
  "k \<in> set (map fst obj) \<Longrightarrow> assignProperty obj k v = defineProperty obj k v"
  by (simp add: assignProperty_def)

lemma numberAt_cong: "map_of a k = map_of b k \<Longrightarrow> numberAt a k = numberAt b k"
  by (simp add: numberAt_def)

lemma foldl_rewrite:
  assumes step: "\<And>cv i f. step cv (ArgumentElement i f) = assignProperty cv i (liftNum g (numberAt cv i))"
    and "\<forall>el\<in>set xs. isArgumentElement el \<and> elementId el \<in> set (map fst cv)"
    and "distinct (map elementId xs)"
  shows "map fst (foldl step cv xs) = map fst cv \<and>
         (\<forall>k. map_of (foldl step cv xs) k =
            (if k \<in> elementId ` set xs then Some (liftNum g (numberAt cv k)) else map_of cv k))"
  using assms(2,3)
proof (induction xs arbitrary: cv)
  case Nil
  show ?case by simp
next
  case (Cons el xs)
  from Cons.prems(1) obtain i f where el: "el = ArgumentElement i f" by (cases el) auto
  with Cons.prems(1) have own: "i \<in> set (map fst cv)" by simp
  let ?cv = "defineProperty cv i (liftNum g (numberAt cv i))"
  have st: "step cv (ArgumentElement i f) = ?cv" by (simp add: step assignProperty_own [OF own])
  have keys: "map fst ?cv = map fst cv" by (rule keys_defineProperty [OF own])
  have p1: "\<forall>e\<in>set xs. isArgumentElement e \<and> elementId e \<in> set (map fst ?cv)"
    using Cons.prems(1) unfolding keys by simp
  have p2: "distinct (map elementId xs)" using Cons.prems(2) by simp
  have notin: "i \<notin> elementId ` set xs" using Cons.prems(2) el by simp
  from Cons.IH [OF p1 p2]
  have ih1: "map fst (foldl step ?cv xs) = map fst ?cv"
    and ih2: "\<And>k. map_of (foldl step ?cv xs) k =
            (if k \<in> elementId ` set xs then Some (liftNum g (numberAt ?cv k)) else map_of ?cv k)"
    by simp_all
  have other: "numberAt ?cv k = numberAt cv k" if "k \<noteq> i" for k
    using that by (intro numberAt_cong) (simp add: map_of_defineProperty)
  show ?case
  proof (intro conjI allI)
    show "map fst (foldl step cv (el # xs)) = map fst cv"
      by (simp add: el st ih1 keys)
    fix k
    show "map_of (foldl step cv (el # xs)) k =
            (if k \<in> elementId ` set (el # xs) then Some (liftNum g (numberAt cv k)) else map_of cv k)"
    proof (cases "k = i")
      case True
      with notin show ?thesis by (simp add: st ih2 el map_of_defineProperty)
    next
      case False
      then show ?thesis by (simp add: st ih2 el map_of_defineProperty other)
    qed
  qed
qed

lemma styled_is_argument: "styleOf el = Some st \<Longrightarrow> isArgumentElement el"
  by (cases el) simp_all

lemma map_of_JSON_clone: "map_of (JSON_clone vals) k = map_option Fin (map_of vals k)"
  by (induction vals) (auto simp: JSON_clone_def)

lemma keys_JSON_clone: "map fst (JSON_clone vals) = map fst vals"
  by (induction vals) (auto simp: JSON_clone_def)

lemma preprocess_distinct_placeholders:
  assumes parse: "parse E icuMessage = Inr elements"
    and dist: "distinct (map elementId (filter isArgumentElement elements))"
    and own: "\<forall>el\<in>set elements. isArgumentElement el \<longrightarrow> elementId el \<in> set (map fst vals)"
  shows "\<exists>r. preprocessMessageValues E icuMessage (Some vals) = Inr r \<and>
           map fst r = map fst vals \<and>
           (\<forall>el\<in>set elements. isArgumentElement el \<longrightarrow>
              (\<forall>x. map_of vals (elementId el) = Some x \<longrightarrow>
                   map_of r (elementId el) = Some (Fin (rewrittenValue el x)))) \<and>
           (\<forall>k. k \<notin> elementId ` set (filter isArgumentElement elements) \<longrightarrow>
                map_of r k = map_option Fin (map_of vals k))"
proof -
  let ?ms = "\<lambda>el. styleOf el = Some (js ''milliseconds'')"
  let ?sec = "\<lambda>el. styleOf el = Some (js ''seconds'') \<and> isTimeInMs el"
  let ?by = "\<lambda>el. styleOf el = Some (js ''bytes'')"
  let ?g1 = "\<lambda>x::rat. Math_round (x / 10) * 10"
  let ?g2 = "\<lambda>x::rat. Math_round (x / 100) / 10"
  let ?g3 = "\<lambda>x::rat. x / 1024"
  let ?c0 = "JSON_clone vals"
  let ?c1 = "foldl roundMilliseconds ?c0 (filter ?ms elements)"
  let ?c2 = "foldl toSeconds ?c1 (filter ?sec elements)"
  let ?c3 = "foldl toKilobytes ?c2 (filter ?by elements)"
  have sub: "filter P elements = filter P (filter isArgumentElement elements)"
    if "\<And>el. P el \<Longrightarrow> isArgumentElement el" for P
    using that by (induction elements) auto
  have d: "distinct (map elementId (filter P elements))"
    if "\<And>el. P el \<Longrightarrow> isArgumentElement el" for P
  proof -
    have e: "filter P elements = filter P (filter isArgumentElement elements)"
      by (rule sub) (rule that)
    show ?thesis by (subst e) (rule distinct_map_filter [OF dist])
  qed
  have inj: "inj_on elementId (set (filter isArgumentElement elements))"
    using dist by (simp add: distinct_map)
  have same: "a = b" if "a \<in> set elements" "b \<in> set elements" "isArgumentElement a"
      "isArgumentElement b" "elementId a = elementId b" for a b
    using inj that by (auto simp: inj_on_def)
  have nomiss: "find (valueMissing vals) (filter isArgumentElement elements) = None"
  proof -
    have "\<not> valueMissing vals el" if "el \<in> set (filter isArgumentElement elements)" for el
    proof -
      from that own have "elementId el \<in> set (map fst vals)" by simp
      then show ?thesis by (cases el) (auto simp: js_in_def)
    qed
    then show ?thesis by (simp add: find_None_iff)
  qed
  have res: "preprocessMessageValues E icuMessage (Some vals) = Inr ?c3"
    by (simp add: preprocessMessageValues_def parse nomiss)
  have a1: "\<forall>el\<in>set (filter ?ms elements). isArgumentElement el \<and> elementId el \<in> set (map fst ?c0)"
    using own by (auto simp: keys_JSON_clone dest: styled_is_argument)
  from foldl_rewrite [of roundMilliseconds ?g1, OF _ a1 d]
  have k1: "map fst ?c1 = map fst ?c0"
    and v1: "\<And>k. map_of ?c1 k = (if k \<in> elementId ` set (filter ?ms elements)
               then Some (liftNum ?g1 (numberAt ?c0 k)) else map_of ?c0 k)"
    by (simp_all add: styled_is_argument)
  have a2: "\<forall>el\<in>set (filter ?sec elements). isArgumentElement el \<and> elementId el \<in> set (map fst ?c1)"
    unfolding k1 using own by (auto simp: keys_JSON_clone dest: styled_is_argument)
  from foldl_rewrite [of toSeconds ?g2, OF _ a2 d]
  have k2: "map fst ?c2 = map fst ?c1"
    and v2: "\<And>k. map_of ?c2 k = (if k \<in> elementId ` set (filter ?sec elements)
               then Some (liftNum ?g2 (numberAt ?c1 k)) else map_of ?c1 k)"
    by (simp_all add: styled_is_argument)
  have a3: "\<forall>el\<in>set (filter ?by elements). isArgumentElement el \<and> elementId el \<in> set (map fst ?c2)"
    unfolding k2 k1 using own by (auto simp: keys_JSON_clone dest: styled_is_argument)
  from foldl_rewrite [of toKilobytes ?g3, OF _ a3 d]
  have k3: "map fst ?c3 = map fst ?c2"
    and v3: "\<And>k. map_of ?c3 k = (if k \<in> elementId ` set (filter ?by elements)
               then Some (liftNum ?g3 (numberAt ?c2 k)) else map_of ?c2 k)"
    by (simp_all add: styled_is_argument)
  have inP: "elementId el \<in> elementId ` set (filter P elements) \<longleftrightarrow> P el"
    if "el \<in> set elements" "isArgumentElement el" "\<And>e. P e \<Longrightarrow> isArgumentElement e" for el P
  proof
    assume "elementId el \<in> elementId ` set (filter P elements)"
    then obtain e where e: "e \<in> set elements" "P e" "elementId e = elementId el" by auto
    from same [OF e(1) that(1) that(3) [OF e(2)] that(2) e(3)] e(2) show "P el" by simp
  next
    assume "P el"
    with that(1) show "elementId el \<in> elementId ` set (filter P elements)" by auto
  qed
  have main: "map_of ?c3 (elementId el) = Some (Fin (rewrittenValue el x))"
    if el: "el \<in> set elements" "isArgumentElement el" and x: "map_of vals (elementId el) = Some x"
    for el x
  proof -
    have n0: "numberAt ?c0 (elementId el) = Fin x"
      by (simp add: numberAt_def map_of_JSON_clone x)
    have m0: "map_of ?c0 (elementId el) = Some (Fin x)"
      by (simp add: map_of_JSON_clone x)
    have i1: "elementId el \<in> elementId ` set (filter ?ms elements) \<longleftrightarrow> ?ms el"
      by (rule inP [OF el]) (rule styled_is_argument)
    have i2: "elementId el \<in> elementId ` set (filter ?sec elements) \<longleftrightarrow> ?sec el"
      by (rule inP [OF el]) (auto dest: styled_is_argument)
    have i3: "elementId el \<in> elementId ` set (filter ?by elements) \<longleftrightarrow> ?by el"
      by (rule inP [OF el]) (rule styled_is_argument)
    have ex: "\<not> (?ms el \<and> ?sec el)" "\<not> (?ms el \<and> ?by el)" "\<not> (?sec el \<and> ?by el)"
      by auto
    show ?thesis
      unfolding numberAt_def v3 v2 v1 i1 i2 i3 m0 rewrittenValue_def
      using ex by (cases "?ms el"; cases "?sec el"; cases "?by el") (simp_all only: if_True if_False option.case liftNum.simps simp_thms)
  qed
  have rest: "map_of ?c3 k = map_option Fin (map_of vals k)"
    if "k \<notin> elementId ` set (filter isArgumentElement elements)" for k
  proof -
    have "k \<notin> elementId ` set (filter P elements)" if "\<And>e. P e \<Longrightarrow> isArgumentElement e" for P
      using \<open>k \<notin> elementId ` set (filter isArgumentElement elements)\<close> that by auto
    then have "k \<notin> elementId ` set (filter ?ms elements)" "k \<notin> elementId ` set (filter ?sec elements)"
      "k \<notin> elementId ` set (filter ?by elements)"
      by (auto dest: styled_is_argument)
    then show ?thesis unfolding v3 v2 v1 by (simp add: map_of_JSON_clone)
  qed
  have keys: "map fst ?c3 = map fst vals" by (simp only: k3 k2 k1 keys_JSON_clone)
  show ?thesis
    using res keys main rest by (intro exI [of _ ?c3] conjI ballI impI allI) blast+
qed


text \<open>
  Claim C8 at a message that shows the same number of bytes twice: each of the two elements
  divides the value by 1024, and 1048576 bytes become 1 and not 1024.
\<close>

theorem repeated_placeholder_converted_twice:
  "preprocessMessageValues sampleEnv (js ''{size, number, bytes} of {size, number, bytes}'')
     (Some [(js ''size'', 1048576)]) = Inr [(js ''size'', Fin 1)]"
  by (simp add: preprocessMessageValues_def sampleEnv_def sampleParse_def sampleMessages_def
      js_in_def Object_prototype_keys_def JSON_clone_def assignProperty_def numberAt_def)

lemma sample_milliseconds:
  "preprocessMessageValues sampleEnv
     (js ''Potential savings of {wastedMs, number, milliseconds}'' @ [160] @ js ''ms'')
     (Some [(js ''wastedMs'', 1234)]) = Inr [(js ''wastedMs'', Fin 1230)]"
  by (simp add: preprocessMessageValues_def sampleEnv_def sampleParse_def sampleMessages_def
      js_in_def Object_prototype_keys_def JSON_clone_def assignProperty_def numberAt_def
      Math_round_def floor_eq_iff)

lemma sample_seconds:
  "preprocessMessageValues sampleEnv (js ''{timeInMs, number, seconds}'' @ [160] @ js ''s'')
     (Some [(js ''timeInMs'', 5238)]) = Inr [(js ''timeInMs'', Fin (52 / 10))]"
  by (simp add: preprocessMessageValues_def sampleEnv_def sampleParse_def sampleMessages_def
      js_in_def Object_prototype_keys_def JSON_clone_def assignProperty_def numberAt_def
      Math_round_def floor_eq_iff)

end
